theory Spec2Isabelle
  imports Main "HOL-Library.Word"
begin

section \<open>JavaScript values, strings and errors\<close>

text \<open>
  A JavaScript string is a sequence of UTF-16 code units. The converters only look at the
  type tag of a non-string argument, so the payloads of the other values are kept small.
\<close>

type_synonym jchar = "16 word"
type_synonym jstring = "jchar list"

definition js :: "string \<Rightarrow> jstring" where
  "js s = map of_char s"

datatype jsval =
    JNull
  | JUndefined
  | JBoolean bool
  | JNumber int
  | JString jstring
  | JObject "(jstring \<times> jsval) list"
  | JArray "jsval list"

fun typeof :: "jsval \<Rightarrow> string" where
  "typeof JNull = ''object''"
| "typeof JUndefined = ''undefined''"
| "typeof (JBoolean b) = ''boolean''"
| "typeof (JNumber n) = ''number''"
| "typeof (JString s) = ''string''"
| "typeof (JObject fs) = ''object''"
| "typeof (JArray xs) = ''object''"

text \<open>The two exception classes the converters throw, each with its message.\<close>

datatype js_error = TypeError string | Error string

section \<open>Character classes\<close>

text \<open>
  A class is written as the list of its ranges, as between the brackets of the source:
  \<^verbatim>\<open>[A-Z]\<close>, \<^verbatim>\<open>[^A-Za-z0-9]\<close>, and \<^verbatim>\<open>\s\<close>.
\<close>

datatype cls = In "(jchar \<times> jchar) list" | NotIn "(jchar \<times> jchar) list" | Space

fun in_ranges :: "(jchar \<times> jchar) list \<Rightarrow> jchar \<Rightarrow> bool" where
  "in_ranges [] c = False"
| "in_ranges ((lo, hi) # rs) c = ((lo \<le> c \<and> c \<le> hi) \<or> in_ranges rs c)"

text \<open>
  White space of ECMAScript (WhiteSpace and LineTerminator): what \<^verbatim>\<open>trim\<close> removes and
  what \<^verbatim>\<open>\s\<close> matches.
\<close>

definition is_ws :: "jchar \<Rightarrow> bool" where
  "is_ws c \<longleftrightarrow>
     c = 0x09 \<or> c = 0x0A \<or> c = 0x0B \<or> c = 0x0C \<or> c = 0x0D \<or> c = 0x20 \<or> c = 0xA0 \<or>
     c = 0x1680 \<or> (0x2000 \<le> c \<and> c \<le> 0x200A) \<or> c = 0x2028 \<or> c = 0x2029 \<or>
     c = 0x202F \<or> c = 0x205F \<or> c = 0x3000 \<or> c = 0xFEFF"

fun in_cls :: "cls \<Rightarrow> jchar \<Rightarrow> bool" where
  "in_cls (In rs) c = in_ranges rs c"
| "in_cls (NotIn rs) c = (\<not> in_ranges rs c)"
| "in_cls Space c = is_ws c"

definition upperC :: cls where "upperC = In [(0x41, 0x5A)]"
definition lowerC :: cls where "lowerC = In [(0x61, 0x7A)]"
definition digitC :: cls where "digitC = In [(0x30, 0x39)]"
definition alnumC :: cls where "alnumC = In [(0x41, 0x5A), (0x61, 0x7A), (0x30, 0x39)]"
definition sepC :: cls where "sepC = NotIn [(0x41, 0x5A), (0x61, 0x7A), (0x30, 0x39)]"

abbreviation is_upper :: "jchar \<Rightarrow> bool" where "is_upper \<equiv> in_cls upperC"
abbreviation is_lower :: "jchar \<Rightarrow> bool" where "is_lower \<equiv> in_cls lowerC"
abbreviation is_digit :: "jchar \<Rightarrow> bool" where "is_digit \<equiv> in_cls digitC"
abbreviation is_alnum :: "jchar \<Rightarrow> bool" where "is_alnum \<equiv> in_cls alnumC"
abbreviation is_sep :: "jchar \<Rightarrow> bool" where "is_sep \<equiv> in_cls sepC"

section \<open>Regular expressions\<close>

text \<open>
  The fragment of ECMAScript regular expressions the source uses: a class, a greedy
  \<^verbatim>\<open>+\<close> or \<^verbatim>\<open>?\<close> on a class, sequence, alternation, the lookahead \<^verbatim>\<open>(?=...)\<close>, and
  the anchors \<^verbatim>\<open>^\<close> and \<^verbatim>\<open>$\<close>. Capture groups do not change what is matched and are
  left out.
\<close>

datatype re =
    Cls cls
  | Plus cls
  | Opt cls
  | Seq re re
  | Alt re re
  | Look re
  | Bol
  | Eol

text \<open>
  The backtracking matcher, in continuation style as in the language definition. A state
  is the index reached and the input that remains. An alternative or a greedy repetition
  tries its first choice with the whole continuation and falls back when that fails; a
  lookahead matches its body on its own and continues from where it started.
\<close>

type_synonym mstate = "nat \<times> jstring"

fun matcher :: "re \<Rightarrow> mstate \<Rightarrow> (mstate \<Rightarrow> mstate option) \<Rightarrow> mstate option" where
  "matcher (Cls c) (i, []) k = None"
| "matcher (Cls c) (i, x # xs) k = (if in_cls c x then k (Suc i, xs) else None)"
| "matcher (Plus c) (i, []) k = None"
| "matcher (Plus c) (i, x # xs) k =
     (if in_cls c x
      then (case matcher (Plus c) (Suc i, xs) k of Some r \<Rightarrow> Some r | None \<Rightarrow> k (Suc i, xs))
      else None)"
| "matcher (Opt c) (i, []) k = k (i, [])"
| "matcher (Opt c) (i, x # xs) k =
     (if in_cls c x
      then (case k (Suc i, xs) of Some r \<Rightarrow> Some r | None \<Rightarrow> k (i, x # xs))
      else k (i, x # xs))"
| "matcher (Seq r1 r2) st k = matcher r1 st (\<lambda>st'. matcher r2 st' k)"
| "matcher (Alt r1 r2) st k = (case matcher r1 st k of Some r \<Rightarrow> Some r | None \<Rightarrow> matcher r2 st k)"
| "matcher (Look r) st k = (case matcher r st Some of Some _ \<Rightarrow> k st | None \<Rightarrow> None)"
| "matcher Bol (i, s) k = (if i = 0 then k (i, s) else None)"
| "matcher Eol (i, s) k = (if s = [] then k (i, s) else None)"

text \<open>One attempt at a given position: the state after the match, if there is one.\<close>

definition match_at :: "re \<Rightarrow> mstate \<Rightarrow> mstate option" where
  "match_at r st = matcher r st Some"

text \<open>\<^verbatim>\<open>re.test(s)\<close>: is there a match starting at some index.\<close>

fun test_from :: "re \<Rightarrow> nat \<Rightarrow> jstring \<Rightarrow> bool" where
  "test_from r i [] = (case match_at r (i, []) of Some _ \<Rightarrow> True | None \<Rightarrow> False)"
| "test_from r i (x # xs) =
     (case match_at r (i, x # xs) of Some _ \<Rightarrow> True | None \<Rightarrow> test_from r (Suc i) xs)"

definition regex_test :: "re \<Rightarrow> jstring \<Rightarrow> bool" where
  "regex_test r s = test_from r 0 s"

text \<open>
  \<^verbatim>\<open>s.split(re)\<close>: \<open>acc\<close> is the text since the end of the last separator. A match that
  consumes nothing right at the end of the last separator is skipped; one further on
  closes the piece without consuming.
\<close>

fun split_loop :: "re \<Rightarrow> nat \<Rightarrow> jstring \<Rightarrow> jstring \<Rightarrow> jstring list" where
  "split_loop r i acc [] = [acc]"
| "split_loop r i acc (x # xs) =
     (case match_at r (i, x # xs) of
        None \<Rightarrow> split_loop r (Suc i) (acc @ [x]) xs
      | Some (e, rem) \<Rightarrow>
          if length rem < length (x # xs) then acc # split_loop r e [] rem
          else if acc = [] then split_loop r (Suc i) [x] xs
          else acc # split_loop r (Suc i) [x] xs)"

definition regex_split :: "re \<Rightarrow> jstring \<Rightarrow> jstring list" where
  "regex_split r s =
     (if s = [] then (case match_at r (0, []) of Some _ \<Rightarrow> [] | None \<Rightarrow> [[]])
      else split_loop r 0 [] s)"

text \<open>
  \<^verbatim>\<open>s.match(re)\<close> with the \<^verbatim>\<open>g\<close> flag: all matches from left to right, each search
  starting where the last match ended (one further after an empty match); \<^verbatim>\<open>null\<close>
  when there is none.
\<close>

fun match_loop :: "re \<Rightarrow> nat \<Rightarrow> jstring \<Rightarrow> jstring list" where
  "match_loop r i [] = (case match_at r (i, []) of None \<Rightarrow> [] | Some _ \<Rightarrow> [[]])"
| "match_loop r i (x # xs) =
     (case match_at r (i, x # xs) of
        None \<Rightarrow> match_loop r (Suc i) xs
      | Some (e, rem) \<Rightarrow>
          if length rem < length (x # xs)
          then take (length (x # xs) - length rem) (x # xs) # match_loop r e rem
          else [] # match_loop r (Suc i) xs)"

definition regex_match :: "re \<Rightarrow> jstring \<Rightarrow> jstring list option" where
  "regex_match r s = (case match_loop r 0 s of [] \<Rightarrow> None | t # ts \<Rightarrow> Some (t # ts))"

section \<open>String and array primitives\<close>

text \<open>\<^verbatim>\<open>s.trim()\<close>: the string without the white space at its two ends.\<close>

definition trim :: "jstring \<Rightarrow> jstring" where
  "trim s = rev (dropWhile is_ws (rev (dropWhile is_ws s)))"

text \<open>
  \<^verbatim>\<open>xs.join(sep)\<close>, as the language defines it: a result string \<open>R\<close> that starts
  empty and, for each index \<open>k\<close>, receives the separator when \<open>k > 0\<close> and then the
  element.
\<close>

fun join_loop :: "jstring \<Rightarrow> jstring \<Rightarrow> nat \<Rightarrow> jstring list \<Rightarrow> jstring" where
  "join_loop sep R k [] = R"
| "join_loop sep R k (x # xs) = join_loop sep ((if k > 0 then R @ sep else R) @ x) (Suc k) xs"

definition js_join :: "jstring \<Rightarrow> jstring list \<Rightarrow> jstring" where
  "js_join sep xs = join_loop sep [] 0 xs"

text \<open>\<^verbatim>\<open>filter(Boolean)\<close> on strings: the empty string is the only falsy one.\<close>

definition Boolean :: "jstring \<Rightarrow> bool" where
  "Boolean s \<longleftrightarrow> s \<noteq> []"

text \<open>
  Case conversion. \<^verbatim>\<open>toLowerCase\<close> and \<^verbatim>\<open>toUpperCase\<close> go through the string
  from left to right and append the image of each character to the result. A code unit
  below U+0100 is a character of its own, and its lowercase form is fixed and free of
  context: the 26 ASCII capitals and the Latin-1 capitals U+00C0 to U+00DE, without the
  multiplication sign U+00D7, move up by 32, and every other such unit stays. The same
  holds for the uppercase form of an ASCII unit. For every other code unit (a unit from
  U+0100 on, where surrogate pairs and the final sigma live, and for uppercase also a
  Latin-1 unit) the image is given by the Unicode tables of the runtime, which are not
  part of the repository and are taken as a parameter: a table sees the text before the
  unit, the unit, and the text after it.
\<close>

record unicode_tables =
  unicodeLower :: "jstring \<Rightarrow> jchar \<Rightarrow> jstring \<Rightarrow> jstring"
  unicodeUpper :: "jstring \<Rightarrow> jchar \<Rightarrow> jstring \<Rightarrow> jstring"

definition is_ascii :: "jchar \<Rightarrow> bool" where
  "is_ascii c \<longleftrightarrow> c < 0x80"

definition lower_ascii :: "jchar \<Rightarrow> jchar" where
  "lower_ascii c = (if is_upper c then c + 0x20 else c)"

definition upper_ascii :: "jchar \<Rightarrow> jchar" where
  "upper_ascii c = (if is_lower c then c - 0x20 else c)"

definition lower_latin1 :: "jchar \<Rightarrow> jchar" where
  "lower_latin1 c =
     (if (0xC0 \<le> c \<and> c \<le> 0xD6) \<or> (0xD8 \<le> c \<and> c \<le> 0xDE) then c + 0x20 else c)"

definition lower_unit :: "unicode_tables \<Rightarrow> jstring \<Rightarrow> jchar \<Rightarrow> jstring \<Rightarrow> jstring" where
  "lower_unit U before c after =
     (if is_ascii c then [lower_ascii c]
      else if c < 0x100 then [lower_latin1 c]
      else unicodeLower U before c after)"

definition upper_unit :: "unicode_tables \<Rightarrow> jstring \<Rightarrow> jchar \<Rightarrow> jstring \<Rightarrow> jstring" where
  "upper_unit U before c after =
     (if is_ascii c then [upper_ascii c] else unicodeUpper U before c after)"

fun lower_loop :: "unicode_tables \<Rightarrow> jstring \<Rightarrow> jstring \<Rightarrow> jstring \<Rightarrow> jstring" where
  "lower_loop U before R [] = R"
| "lower_loop U before R (c # after) =
     lower_loop U (before @ [c]) (R @ lower_unit U before c after) after"

fun upper_loop :: "unicode_tables \<Rightarrow> jstring \<Rightarrow> jstring \<Rightarrow> jstring \<Rightarrow> jstring" where
  "upper_loop U before R [] = R"
| "upper_loop U before R (c # after) =
     upper_loop U (before @ [c]) (R @ upper_unit U before c after) after"

definition toLowerCase :: "unicode_tables \<Rightarrow> jstring \<Rightarrow> jstring" where
  "toLowerCase U s = lower_loop U [] [] s"

definition toUpperCase :: "unicode_tables \<Rightarrow> jstring \<Rightarrow> jstring" where
  "toUpperCase U s = upper_loop U [] [] s"

section \<open>The converters\<close>

text \<open>
  \<^verbatim>\<open>refined_prompt.js\<close> defines \<^verbatim>\<open>toCamelCase\<close> (lines 114 to 154) and
  \<^verbatim>\<open>toDotCase\<close> (lines 192 to 214); between them the file repeats the last lines of
  \<^verbatim>\<open>toCamelCase\<close> outside any function, which the model leaves out.
  \<^verbatim>\<open>basic_prompt.js\<close> defines a second, simpler \<^verbatim>\<open>toCamelCase\<close>, named
  \<open>toCamelCase_basic\<close> here, and the kebab-case source file defines
  \<^verbatim>\<open>toKebabCase\<close>. A raised exception is the left summand of the result.
\<close>

subsection \<open>The converters of \<^verbatim>\<open>refined_prompt.js\<close>\<close>

text \<open>
  The regular expressions of the source:
  \<^verbatim>\<open>/[^A-Za-z0-9]+/\<close>,
  \<^verbatim>\<open>/([A-Z]+(?=[A-Z][a-z]))|([A-Z]?[a-z]+)|([A-Z]+)|([0-9]+)/g\<close> and
  \<^verbatim>\<open>/^[0-9]+$/\<close>.
\<close>

definition separatorRe :: re where
  "separatorRe = Plus sepC"

definition tokenRe :: re where
  "tokenRe =
     Alt (Seq (Plus upperC) (Look (Seq (Cls upperC) (Cls lowerC))))
    (Alt (Seq (Opt upperC) (Plus lowerC))
    (Alt (Plus upperC)
         (Plus digitC)))"

definition digitsRe :: re where
  "digitsRe = Seq Bol (Seq (Plus digitC) Eol)"

text \<open>
  Both \<^verbatim>\<open>toCamelCase\<close> (lines 126 to 140) and \<^verbatim>\<open>toDotCase\<close> (lines 203 to
  211) compute \<^verbatim>\<open>parts\<close> from the trimmed string with the same lines; the model
  names them once.
\<close>

definition tokenize :: "jstring \<Rightarrow> jstring list" where
  "tokenize str =
     (let hasSeparators = regex_test separatorRe str in
      if hasSeparators then filter Boolean (regex_split separatorRe str)
      else (case regex_match tokenRe str of Some ms \<Rightarrow> ms | None \<Rightarrow> [str]))"

text \<open>
  Lines 142 to 153 of \<^verbatim>\<open>toCamelCase\<close>: the early return on no parts, the helper
  \<^verbatim>\<open>capitalize\<close>, and the concatenation of the rendered parts.
\<close>

definition capitalize :: "unicode_tables \<Rightarrow> jstring \<Rightarrow> jstring" where
  "capitalize U s =
     (if length s = 0 then [] else toUpperCase U [s ! 0] @ toLowerCase U (drop 1 s))"

definition render_camel :: "unicode_tables \<Rightarrow> jstring list \<Rightarrow> jstring" where
  "render_camel U parts =
     (case parts of
        [] \<Rightarrow> []
      | p0 # ps \<Rightarrow>
          (let first = toLowerCase U p0;
               rest = js_join [] (map (\<lambda>p. if regex_test digitsRe p then p else capitalize U p) ps)
           in first @ rest))"

fun toCamelCase :: "unicode_tables \<Rightarrow> jsval \<Rightarrow> js_error + jstring" where
  "toCamelCase U JNull =
     Inl (TypeError ''toCamelCase: input must be a string, received null/undefined'')"
| "toCamelCase U JUndefined =
     Inl (TypeError ''toCamelCase: input must be a string, received null/undefined'')"
| "toCamelCase U (JString input) =
     (let str = trim input in
      if str = [] then Inr []
      else Inr (render_camel U (tokenize str)))"
| "toCamelCase U v =
     Inl (TypeError (''toCamelCase: expected string but received '' @ typeof v))"

text \<open>Line 213 of \<^verbatim>\<open>toDotCase\<close>.\<close>

definition render_dot :: "unicode_tables \<Rightarrow> jstring list \<Rightarrow> jstring" where
  "render_dot U parts = js_join (js ''.'') (map (\<lambda>p. toLowerCase U p) parts)"

fun toDotCase :: "unicode_tables \<Rightarrow> jsval \<Rightarrow> js_error + jstring" where
  "toDotCase U JNull =
     Inl (TypeError ''toDotCase: input must be a string, received null/undefined'')"
| "toDotCase U JUndefined =
     Inl (TypeError ''toDotCase: input must be a string, received null/undefined'')"
| "toDotCase U (JString input) =
     (let str = trim input in
      if str = [] then Inr []
      else Inr (render_dot U (tokenize str)))"
| "toDotCase U v =
     Inl (TypeError (''toDotCase: expected string but received '' @ typeof v))"

subsection \<open>The converter of \<^verbatim>\<open>basic_prompt.js\<close>\<close>

definition camel_word :: "unicode_tables \<Rightarrow> nat \<times> jstring \<Rightarrow> jstring" where
  "camel_word U = (\<lambda>(idx, word).
     (let lower = toLowerCase U word in
      if idx = 0 then lower
      else toUpperCase U (take 1 lower) @ drop 1 lower))"

fun toCamelCase_basic :: "unicode_tables \<Rightarrow> jsval \<Rightarrow> js_error + jstring" where
  "toCamelCase_basic U (JString str) =
     Inr (js_join []
       (map (camel_word U)
         (enumerate 0 (filter Boolean (regex_split separatorRe (trim str))))))"
| "toCamelCase_basic U v = Inr []"

subsection \<open>The kebab-case converter\<close>

definition whitespaceRe :: re where
  "whitespaceRe = Plus Space"

fun toKebabCase :: "unicode_tables \<Rightarrow> jsval \<Rightarrow> js_error + jstring" where
  "toKebabCase U (JString input) =
     Inr (toLowerCase U (js_join (js ''-'') (regex_split whitespaceRe (trim input))))"
| "toKebabCase U v = Inl (Error ''Invalid input: expected a non-null string.'')"

section \<open>The specification's tokenizer and renderers\<close>

text \<open>
  The functions of this section follow the wording of the specification, not the code;
  the theorems below compare them with the converters.
\<close>

subsection \<open>Separator splitting\<close>

text \<open>
  The tokens are the maximal runs of letters and digits: a separator closes the token in
  progress, if there is one, and produces nothing by itself.
\<close>

fun sep_tokens :: "jstring \<Rightarrow> jstring \<Rightarrow> jstring list" where
  "sep_tokens acc [] = (if acc = [] then [] else [acc])"
| "sep_tokens acc (x # xs) =
     (if is_alnum x then sep_tokens (acc @ [x]) xs
      else if acc = [] then sep_tokens [] xs
      else acc # sep_tokens [] xs)"

subsection \<open>Boundary detection\<close>

text \<open>
  One scan step, with the rules in priority order: the acronym before a word, the word
  with an optional capital, the run of capitals, the run of digits. The result is the
  token and the input left.
\<close>

definition lower_follows :: "jstring \<Rightarrow> bool" where
  "lower_follows s \<longleftrightarrow> (case dropWhile is_upper s of [] \<Rightarrow> False | c # _ \<Rightarrow> is_lower c)"

definition boundary_token :: "jstring \<Rightarrow> (jstring \<times> jstring) option" where
  "boundary_token s =
     (let run = takeWhile is_upper s; rest = dropWhile is_upper s in
      if 2 \<le> length run \<and> lower_follows s
        then Some (butlast run, last run # rest)
      else if length run \<le> 1 \<and> lower_follows s
        then Some (run @ takeWhile is_lower rest, dropWhile is_lower rest)
      else if run \<noteq> []
        then Some (run, rest)
      else if s \<noteq> [] \<and> is_digit (hd s)
        then Some (takeWhile is_digit s, dropWhile is_digit s)
      else None)"

text \<open>An uppercase run of two or more letters whose last letter starts a word.\<close>

definition acronym_ahead :: "jstring \<Rightarrow> bool" where
  "acronym_ahead s \<longleftrightarrow>
     2 \<le> length (takeWhile is_upper s) \<and> dropWhile is_upper s \<noteq> [] \<and>
     is_lower (hd (dropWhile is_upper s))"

subsection \<open>Renderers\<close>

text \<open>
  LowerCamel: the first token in lower case, every later token capitalised unless it is
  all digits, nothing in between.
\<close>

definition camel_token :: "jstring \<Rightarrow> jstring" where
  "camel_token t =
     (if list_all is_digit t then t
      else (case t of [] \<Rightarrow> [] | c # cs \<Rightarrow> upper_ascii c # map lower_ascii cs))"

fun lower_camel :: "jstring list \<Rightarrow> jstring" where
  "lower_camel [] = []"
| "lower_camel (t # ts) = map lower_ascii t @ concat (map camel_token ts)"

text \<open>DotCase: every token in lower case, one dot between neighbours.\<close>

fun dot_case :: "jstring list \<Rightarrow> jstring" where
  "dot_case [] = []"
| "dot_case [t] = map lower_ascii t"
| "dot_case (t # u # us) = map lower_ascii t @ 0x2E # dot_case (u # us)"

text \<open>
  KebabCase on a trimmed string: every maximal run of white space becomes one hyphen,
  every other code unit stays. The flag tells whether the scan is inside a run.
\<close>

fun collapse_ws :: "bool \<Rightarrow> jstring \<Rightarrow> jstring" where
  "collapse_ws in_run [] = []"
| "collapse_ws in_run (x # xs) =
     (if is_ws x then (if in_run then collapse_ws True xs else 0x2D # collapse_ws True xs)
      else x # collapse_ws False xs)"

text \<open>
  Lowercasing every character: a character below U+0100 that is a capital letter becomes
  its small letter, any other character below U+0100 stays, and a character from U+0100
  on becomes what the tables of the runtime give for it where it stands.
\<close>

definition lowercase_8bit :: "jchar \<Rightarrow> jchar" where
  "lowercase_8bit c =
     (if is_upper c \<or> (0xC0 \<le> c \<and> c \<le> 0xDE \<and> c \<noteq> 0xD7) then c + 0x20 else c)"

fun lowercase_each :: "unicode_tables \<Rightarrow> jstring \<Rightarrow> jstring \<Rightarrow> jstring" where
  "lowercase_each U before [] = []"
| "lowercase_each U before (c # cs) =
     (if c < 0x100 then [lowercase_8bit c] else unicodeLower U before c cs) @
     lowercase_each U (before @ [c]) cs"

section \<open>Auxiliary definitions\<close>

text \<open>
  A matcher state reaches another when the second is what is left of the first after
  consuming a prefix, with the index advanced by its length.
\<close>

definition reaches :: "mstate \<Rightarrow> mstate \<Rightarrow> bool" where
  "reaches st st' \<longleftrightarrow> (\<exists>pre. snd st = pre @ snd st' \<and> fst st' = fst st + length pre)"

text \<open>
  Case tables that leave every code unit they are asked about as it is; the closed
  instances below are stated with them.
\<close>

definition identity_tables :: unicode_tables where
  "identity_tables =
     \<lparr>unicodeLower = (\<lambda>before c after. [c]), unicodeUpper = (\<lambda>before c after. [c])\<rparr>"

section \<open>Properties of the model\<close>

subsection \<open>Character classes\<close>

lemma is_sep_iff: "is_sep c \<longleftrightarrow> \<not> is_alnum c"
  by (simp add: sepC_def alnumC_def)

lemma alnum_cases: "is_alnum c \<longleftrightarrow> is_upper c \<or> is_lower c \<or> is_digit c"
  by (auto simp add: alnumC_def upperC_def lowerC_def digitC_def)

lemma in_range_unat: "in_ranges rs c = list_ex (\<lambda>(lo, hi). unat lo \<le> unat c \<and> unat c \<le> unat hi) rs"
  by (induction rs) (auto simp: word_le_nat_alt)

lemma upper_unat: "is_upper c \<longleftrightarrow> 65 \<le> unat c \<and> unat c \<le> 90"
  by (simp add: upperC_def in_range_unat)
lemma lower_unat: "is_lower c \<longleftrightarrow> 97 \<le> unat c \<and> unat c \<le> 122"
  by (simp add: lowerC_def in_range_unat)
lemma digit_unat: "is_digit c \<longleftrightarrow> 48 \<le> unat c \<and> unat c \<le> 57"
  by (simp add: digitC_def in_range_unat)

lemma ascii_unat: "is_ascii c \<longleftrightarrow> unat c < 128"
  by (simp add: is_ascii_def word_less_nat_alt)

lemma ws_unat: "is_ws c \<longleftrightarrow>
     unat c = 9 \<or> unat c = 10 \<or> unat c = 11 \<or> unat c = 12 \<or> unat c = 13 \<or> unat c = 32 \<or>
     unat c = 160 \<or> unat c = 5760 \<or> (8192 \<le> unat c \<and> unat c \<le> 8202) \<or> unat c = 8232 \<or>
     unat c = 8233 \<or> unat c = 8239 \<or> unat c = 8287 \<or> unat c = 12288 \<or> unat c = 65279"
  by (simp add: is_ws_def word_unat_eq_iff word_le_nat_alt)

lemma alnum_ascii: "is_alnum c \<Longrightarrow> is_ascii c"
  by (auto simp add: alnum_cases upper_unat lower_unat digit_unat ascii_unat)

lemma in_cls_Space: "in_cls Space = is_ws"
  by (rule ext) simp

lemma ws_not_alnum: "is_ws c \<Longrightarrow> \<not> is_alnum c"
  by (auto simp add: ws_unat alnum_cases upper_unat lower_unat digit_unat)

lemma unat_lower_ascii: "unat (lower_ascii c) = (if is_upper c then unat c + 32 else unat c)"
proof (cases "is_upper c")
  case True
  then have "unat c + unat (0x20 :: 16 word) < 2 ^ LENGTH(16)"
    by (simp add: upper_unat)
  then have "unat (c + 0x20) = unat c + unat (0x20 :: 16 word)"
    by (simp only: unat_add_lem)
  with True show ?thesis by (simp add: lower_ascii_def)
next
  case False
  then show ?thesis by (simp add: lower_ascii_def)
qed

lemma unat_upper_ascii: "unat (upper_ascii c) = (if is_lower c then unat c - 32 else unat c)"
proof (cases "is_lower c")
  case True
  then have "(0x20 :: 16 word) \<le> c"
    by (simp add: lower_unat word_le_nat_alt)
  then have "unat (c - 0x20) = unat c - unat (0x20 :: 16 word)"
    by (rule unat_sub)
  with True show ?thesis by (simp add: upper_ascii_def)
next
  case False
  then show ?thesis by (simp add: upper_ascii_def)
qed

lemma lower_ascii_alnum: "is_alnum c \<Longrightarrow> is_alnum (lower_ascii c)"
  by (auto simp add: alnum_cases upper_unat lower_unat digit_unat unat_lower_ascii)

lemma upper_ascii_alnum: "is_alnum c \<Longrightarrow> is_alnum (upper_ascii c)"
  by (auto simp add: alnum_cases upper_unat lower_unat digit_unat unat_upper_ascii)

subsection \<open>Repetition of a class\<close>

lemma matcher_Plus_Some:
  "matcher (Plus c) (i, s) Some =
     (case s of [] \<Rightarrow> None
      | x # xs \<Rightarrow> if in_cls c x
                  then Some (i + length (takeWhile (in_cls c) s), dropWhile (in_cls c) s)
                  else None)"
proof (induction s arbitrary: i)
  case Nil
  show ?case by simp
next
  case (Cons x xs)
  show ?case
  proof (cases "in_cls c x")
    case False
    then show ?thesis by simp
  next
    case True
    show ?thesis
    proof (cases xs)
      case Nil
      with True show ?thesis by simp
    next
      case (Cons y ys)
      with True Cons.IH [of "Suc i"] show ?thesis by simp
    qed
  qed
qed

lemma match_at_Plus:
  "match_at (Plus c) (i, s) =
     (if s \<noteq> [] \<and> in_cls c (hd s)
      then Some (i + length (takeWhile (in_cls c) s), dropWhile (in_cls c) s)
      else None)"
  by (cases s) (simp_all add: match_at_def matcher_Plus_Some)

lemma test_from_Plus: "test_from (Plus c) i s = list_ex (in_cls c) s"
proof (induction s arbitrary: i)
  case Nil
  show ?case by (simp add: match_at_Plus)
next
  case (Cons x xs)
  then show ?case by (simp add: match_at_Plus)
qed

lemma regex_test_separatorRe: "regex_test separatorRe s = list_ex is_sep s"
  by (simp add: regex_test_def separatorRe_def test_from_Plus)

subsection \<open>Splitting on separators\<close>

lemma sep_tokens_dropWhile: "sep_tokens [] (dropWhile is_sep xs) = sep_tokens [] xs"
  by (induction xs) (simp_all add: is_sep_iff)

lemma split_loop_separatorRe:
  "filter Boolean (split_loop separatorRe i acc s) = sep_tokens acc s"
proof (induction s arbitrary: i acc rule: length_induct)
  case (1 s)
  show ?case
  proof (cases s)
    case Nil
    then show ?thesis by (simp add: Boolean_def)
  next
    case (Cons x xs)
    show ?thesis
    proof (cases "is_sep x")
      case True
      let ?e = "i + length (takeWhile is_sep (x # xs))"
      let ?rem = "dropWhile is_sep xs"
      have len: "length ?rem < length s"
        using Cons by (simp add: le_imp_less_Suc length_dropWhile_le)
      have step: "split_loop separatorRe i acc s = acc # split_loop separatorRe ?e [] ?rem"
        using True Cons len by (simp add: separatorRe_def match_at_Plus)
      have ih: "filter Boolean (split_loop separatorRe ?e [] ?rem) = sep_tokens [] ?rem"
        using 1 len by blast
      have "filter Boolean (split_loop separatorRe i acc s) =
              (if acc = [] then [] else [acc]) @ sep_tokens [] ?rem"
        by (simp only: step ih filter.simps Boolean_def) simp
      also have "\<dots> = sep_tokens acc s"
        using True Cons by (simp add: sep_tokens_dropWhile is_sep_iff)
      finally show ?thesis .
    next
      case False
      have step: "split_loop separatorRe i acc s = split_loop separatorRe (Suc i) (acc @ [x]) xs"
        using False Cons by (simp add: separatorRe_def match_at_Plus)
      have ih: "filter Boolean (split_loop separatorRe (Suc i) (acc @ [x]) xs) = sep_tokens (acc @ [x]) xs"
        using 1 Cons by simp
      have "filter Boolean (split_loop separatorRe i acc s) = sep_tokens (acc @ [x]) xs"
        by (simp only: step ih)
      also have "\<dots> = sep_tokens acc s"
        using False Cons by (simp add: is_sep_iff)
      finally show ?thesis .
    qed
  qed
qed

lemma regex_split_separatorRe:
  "filter Boolean (regex_split separatorRe s) = sep_tokens [] s"
proof (cases s)
  case Nil
  then show ?thesis
    by (simp add: regex_split_def separatorRe_def match_at_Plus Boolean_def)
next
  case (Cons x xs)
  then have "regex_split separatorRe s = split_loop separatorRe 0 [] s"
    by (simp add: regex_split_def)
  then show ?thesis
    by (simp only: split_loop_separatorRe)
qed

lemma sep_tokens_nonempty: "[] \<notin> set (sep_tokens acc s)"
  by (induction acc s rule: sep_tokens.induct) auto

lemma sep_tokens_concat: "concat (sep_tokens acc s) = acc @ filter is_alnum s"
  by (induction acc s rule: sep_tokens.induct) auto

lemma sep_tokens_alnum:
  "list_all is_alnum acc \<Longrightarrow> t \<in> set (sep_tokens acc s) \<Longrightarrow> list_all is_alnum t"
  by (induction acc s arbitrary: t rule: sep_tokens.induct) (auto split: if_splits)

subsection \<open>Joining, white space and the digit test\<close>

lemma join_loop_Suc:
  "join_loop sep R (Suc k) xs = R @ concat (map (\<lambda>x. sep @ x) xs)"
  by (induction xs arbitrary: R k) simp_all

lemma js_join_Nil: "js_join sep [] = []"
  by (simp add: js_join_def)

lemma js_join_Cons: "js_join sep (x # xs) = x @ concat (map (\<lambda>y. sep @ y) xs)"
  by (simp add: js_join_def join_loop_Suc)

lemma js_join_empty_sep: "js_join [] xs = concat xs"
  by (cases xs) (simp_all add: js_join_Nil js_join_Cons)

lemma split_loop_not_Nil: "split_loop r i acc s \<noteq> []"
  by (induction r i acc s rule: split_loop.induct) (auto split: option.splits)

lemma collapse_ws_dropWhile: "collapse_ws True xs = collapse_ws False (dropWhile is_ws xs)"
  by (induction xs) simp_all

lemma split_loop_whitespaceRe:
  "js_join (js ''-'') (split_loop whitespaceRe i acc s) = acc @ collapse_ws False s"
proof (induction s arbitrary: i acc rule: length_induct)
  case (1 s)
  show ?case
  proof (cases s)
    case Nil
    then show ?thesis by (simp add: js_join_Cons)
  next
    case (Cons x xs)
    show ?thesis
    proof (cases "is_ws x")
      case True
      let ?e = "i + length (takeWhile is_ws (x # xs))"
      let ?rem = "dropWhile is_ws xs"
      have len: "length ?rem < length s"
        using Cons by (simp add: le_imp_less_Suc length_dropWhile_le)
      have step: "split_loop whitespaceRe i acc s = acc # split_loop whitespaceRe ?e [] ?rem"
        using True Cons len by (simp add: whitespaceRe_def match_at_Plus in_cls_Space)
      have ih: "js_join (js ''-'') (split_loop whitespaceRe ?e [] ?rem) = collapse_ws False ?rem"
        using 1 len by (metis append_Nil)
      obtain t ts where tts: "split_loop whitespaceRe ?e [] ?rem = t # ts"
        using split_loop_not_Nil by (cases "split_loop whitespaceRe ?e [] ?rem") auto
      have "js_join (js ''-'') (split_loop whitespaceRe i acc s) =
              acc @ js ''-'' @ js_join (js ''-'') (split_loop whitespaceRe ?e [] ?rem)"
        by (simp only: step tts js_join_Cons) simp
      also have "\<dots> = acc @ js ''-'' @ collapse_ws False ?rem"
        by (simp only: ih)
      also have "\<dots> = acc @ collapse_ws False s"
        using True Cons by (simp add: collapse_ws_dropWhile js_def)
      finally show ?thesis .
    next
      case False
      have step: "split_loop whitespaceRe i acc s = split_loop whitespaceRe (Suc i) (acc @ [x]) xs"
        using False Cons by (simp add: whitespaceRe_def match_at_Plus in_cls_Space)
      have ih: "js_join (js ''-'') (split_loop whitespaceRe (Suc i) (acc @ [x]) xs) = (acc @ [x]) @ collapse_ws False xs"
        using 1 Cons by simp
      have "js_join (js ''-'') (split_loop whitespaceRe i acc s) = (acc @ [x]) @ collapse_ws False xs"
        by (simp only: step ih)
      also have "\<dots> = acc @ collapse_ws False s"
        using False Cons by simp
      finally show ?thesis .
    qed
  qed
qed

lemma regex_split_whitespaceRe:
  "js_join (js ''-'') (regex_split whitespaceRe s) = collapse_ws False s"
proof (cases s)
  case Nil
  then show ?thesis
    by (simp add: regex_split_def whitespaceRe_def match_at_Plus js_join_Cons)
next
  case (Cons x xs)
  then have "regex_split whitespaceRe s = split_loop whitespaceRe 0 [] s"
    by (simp add: regex_split_def)
  then show ?thesis
    by (simp only: split_loop_whitespaceRe) simp
qed

lemma lower_unit_8bit: "c < 0x100 \<Longrightarrow> lower_unit U before c after = [lowercase_8bit c]"
proof -
  assume "c < 0x100"
  then have small: "unat c < 256" by (simp add: word_less_nat_alt)
  have cap: "(0xC0 \<le> c \<and> c \<le> 0xDE \<and> c \<noteq> 0xD7) \<longleftrightarrow>
             (0xC0 \<le> c \<and> c \<le> 0xD6) \<or> (0xD8 \<le> c \<and> c \<le> 0xDE)"
    by (simp add: word_le_nat_alt word_unat_eq_iff) arith
  show ?thesis
  proof (cases "is_ascii c")
    case True
    then have nc: "(0xC0 \<le> c \<and> c \<le> 0xDE \<and> c \<noteq> 0xD7) = False"
      by (simp add: ascii_unat word_le_nat_alt)
    have eq: "lowercase_8bit c = lower_ascii c"
      by (simp only: lowercase_8bit_def lower_ascii_def nc simp_thms)
    from True show ?thesis
      by (simp add: lower_unit_def eq)
  next
    case False
    then have nu: "is_upper c = False" by (simp add: ascii_unat upper_unat)
    have eq: "lowercase_8bit c = lower_latin1 c"
      by (simp only: lowercase_8bit_def lower_latin1_def nu cap simp_thms)
    from False \<open>c < 0x100\<close> show ?thesis
      by (simp add: lower_unit_def eq)
  qed
qed

lemma lower_unit_table: "\<not> c < 0x100 \<Longrightarrow> lower_unit U before c after = unicodeLower U before c after"
proof -
  assume n: "\<not> c < 0x100"
  then have "\<not> is_ascii c" by (simp add: ascii_unat word_less_nat_alt)
  with n show ?thesis by (simp add: lower_unit_def)
qed

lemma lower_loop_each: "lower_loop U before R s = R @ lowercase_each U before s"
proof (induction s arbitrary: before R)
  case Nil
  show ?case by simp
next
  case (Cons c cs)
  show ?case
    by (cases "c < 0x100") (simp_all add: Cons.IH lower_unit_8bit lower_unit_table)
qed

lemma toLowerCase_each: "toLowerCase U s = lowercase_each U [] s"
  by (simp add: toLowerCase_def lower_loop_each)

lemma lowercase_8bit_ascii: "is_ascii c \<Longrightarrow> lowercase_8bit c = lower_ascii c"
proof -
  assume "is_ascii c"
  then have nc: "(0xC0 \<le> c \<and> c \<le> 0xDE \<and> c \<noteq> 0xD7) = False"
    by (simp add: ascii_unat word_le_nat_alt)
  show ?thesis by (simp only: lowercase_8bit_def lower_ascii_def nc simp_thms)
qed

lemma ascii_8bit: "is_ascii c \<Longrightarrow> c < 0x100"
  by (simp add: ascii_unat word_less_nat_alt)

lemma lowercase_each_8bit:
  "list_all (\<lambda>c. c < 0x100) s \<Longrightarrow> lowercase_each U before s = map lowercase_8bit s"
  by (induction s arbitrary: before) simp_all

lemma lowercase_each_ascii:
  "list_all is_ascii s \<Longrightarrow> lowercase_each U before s = map lower_ascii s"
  by (induction s arbitrary: before) (simp_all add: ascii_8bit lowercase_8bit_ascii)

lemma toLowerCase_ascii: "list_all is_ascii s \<Longrightarrow> toLowerCase U s = map lower_ascii s"
  by (simp add: toLowerCase_each lowercase_each_ascii)

lemma upper_loop_ascii:
  "list_all is_ascii s \<Longrightarrow> upper_loop U before R s = R @ map upper_ascii s"
  by (induction s arbitrary: before R) (simp_all add: upper_unit_def)

lemma toUpperCase_ascii: "list_all is_ascii s \<Longrightarrow> toUpperCase U s = map upper_ascii s"
  by (simp add: toUpperCase_def upper_loop_ascii)

lemma alnum_all_ascii: "list_all is_alnum s \<Longrightarrow> list_all is_ascii s"
  by (induction s) (simp_all add: alnum_ascii)

lemma matcher_Plus_Eol:
  "matcher (Plus c) (i, s) (\<lambda>st. matcher Eol st Some) =
     (if s \<noteq> [] \<and> list_all (in_cls c) s then Some (i + length s, []) else None)"
proof (induction s arbitrary: i)
  case Nil
  show ?case by simp
next
  case (Cons x xs)
  show ?case
    using Cons.IH [of "Suc i"] by (cases "xs = []") simp_all
qed

lemma match_at_digitsRe:
  "match_at digitsRe (i, s) =
     (if i = 0 \<and> s \<noteq> [] \<and> list_all is_digit s then Some (length s, []) else None)"
  by (simp add: match_at_def digitsRe_def matcher_Plus_Eol)

lemma test_from_digitsRe_pos: "0 < i \<Longrightarrow> test_from digitsRe i s = False"
  by (induction s arbitrary: i) (simp_all add: match_at_digitsRe)

lemma regex_test_digitsRe: "regex_test digitsRe p \<longleftrightarrow> p \<noteq> [] \<and> list_all is_digit p"
  by (cases p) (simp_all add: regex_test_def match_at_digitsRe test_from_digitsRe_pos)

subsection \<open>Every match is a piece of the input\<close>

lemma reaches_refl: "reaches st st"
  by (simp add: reaches_def)

lemma reaches_trans: "reaches a b \<Longrightarrow> reaches b c \<Longrightarrow> reaches a c"
  by (auto simp add: reaches_def)

lemma reaches_step: "reaches (i, x # xs) (Suc i, xs)"
  unfolding reaches_def by (rule exI [of _ "[x]"]) simp

lemma matcher_reaches:
  "(\<And>st1 st2. k st1 = Some st2 \<Longrightarrow> reaches st1 st2) \<Longrightarrow>
   matcher r st k = Some st' \<Longrightarrow> reaches st st'"
proof (induction r st k arbitrary: st' rule: matcher.induct)
  case (1 c i k)
  then show ?case by simp
next
  case (2 c i x xs k)
  from "2.prems"(2) have "k (Suc i, xs) = Some st'" by (simp split: if_splits)
  then have "reaches (Suc i, xs) st'" by (rule "2.prems"(1))
  then show ?case by (rule reaches_trans [OF reaches_step])
next
  case (3 c i k)
  then show ?case by simp
next
  case (4 c i x xs k)
  from "4.prems"(2) have cx: "in_cls c x" by (simp split: if_splits)
  show ?case
  proof (cases "matcher (Plus c) (Suc i, xs) k")
    case None
    with "4.prems"(2) cx have "k (Suc i, xs) = Some st'" by simp
    then have "reaches (Suc i, xs) st'" by (rule "4.prems"(1))
    then show ?thesis by (rule reaches_trans [OF reaches_step])
  next
    case (Some r)
    with "4.prems"(2) cx have "matcher (Plus c) (Suc i, xs) k = Some st'" by simp
    with "4.IH" [OF cx "4.prems"(1)] have "reaches (Suc i, xs) st'" by blast
    then show ?thesis by (rule reaches_trans [OF reaches_step])
  qed
next
  case (5 c i k)
  then show ?case by simp
next
  case (6 c i x xs k)
  then show ?case
    by (auto split: if_splits option.splits intro: reaches_trans [OF reaches_step])
next
  case (7 r1 r2 st k)
  have "\<And>st1 st2. matcher r2 st1 k = Some st2 \<Longrightarrow> reaches st1 st2"
    using "7.IH"(1) "7.prems"(1) by blast
  then show ?case
    using "7.IH"(2) "7.prems"(2) by simp
next
  case (8 r1 r2 st k)
  then show ?case
    by (auto split: option.splits)
next
  case (9 r st k)
  then show ?case
    by (auto split: option.splits)
next
  case (10 i s k)
  then show ?case by (auto split: if_splits)
next
  case (11 i s k)
  then show ?case by (auto split: if_splits)
qed

lemma match_at_reaches: "match_at r st = Some st' \<Longrightarrow> reaches st st'"
  unfolding match_at_def by (rule matcher_reaches [where k = Some]) (simp_all add: reaches_refl)

lemma match_loop_chars: "set (concat (match_loop r i s)) \<subseteq> set s"
proof (induction r i s rule: match_loop.induct)
  case (1 r i)
  show ?case by (simp split: option.splits)
next
  case (2 r i x xs)
  show ?case
  proof (cases "match_at r (i, x # xs)")
    case None
    with "2.IH"(1) show ?thesis by auto
  next
    case (Some st')
    obtain e rem where st': "st' = (e, rem)" by (cases st')
    show ?thesis
    proof (cases "length rem < length (x # xs)")
      case True
      from Some st' have "reaches (i, x # xs) (e, rem)" by (simp add: match_at_reaches)
      then obtain pre where "x # xs = pre @ rem" by (auto simp add: reaches_def)
      then have "set (x # xs) = set pre \<union> set rem" by (metis set_append)
      then have sub: "set rem \<subseteq> set (x # xs)" by blast
      have "set (concat (match_loop r e rem)) \<subseteq> set rem"
        using "2.IH"(2) Some st' True by simp
      moreover have "set (take (length (x # xs) - length rem) (x # xs)) \<subseteq> set (x # xs)"
        by (rule set_take_subset)
      ultimately show ?thesis
        using Some st' True sub by auto
    next
      case False
      have "set (concat (match_loop r (Suc i) xs)) \<subseteq> set xs"
        using "2.IH"(3) Some st' False by simp
      with Some st' False show ?thesis by auto
    qed
  qed
qed

lemma tokenize_alnum:
  assumes "t \<in> set (tokenize s)"
  shows "list_all is_alnum t"
proof (cases "regex_test separatorRe s")
  case True
  with assms have "t \<in> set (sep_tokens [] s)"
    by (simp add: tokenize_def regex_split_separatorRe)
  then show ?thesis by (rule sep_tokens_alnum [rotated]) simp
next
  case False
  then have all: "list_all is_alnum s"
    by (simp add: regex_test_separatorRe is_sep_iff list_all_iff list_ex_iff)
  show ?thesis
  proof (cases "match_loop tokenRe 0 s")
    case Nil
    with False assms have "t = s" by (simp add: tokenize_def regex_match_def)
    with all show ?thesis by simp
  next
    case (Cons u us)
    with False assms have "t \<in> set (match_loop tokenRe 0 s)"
      by (simp add: tokenize_def regex_match_def)
    then have "set t \<subseteq> set (concat (match_loop tokenRe 0 s))" by auto
    with match_loop_chars have "set t \<subseteq> set s" by blast
    with all show ?thesis by (auto simp add: list_all_iff)
  qed
qed

subsection \<open>Rendering and trimming\<close>

lemma capitalize_ascii:
  "list_all is_ascii t \<Longrightarrow>
   capitalize U t = (case t of [] \<Rightarrow> [] | c # cs \<Rightarrow> upper_ascii c # map lower_ascii cs)"
  by (cases t) (simp_all add: capitalize_def toUpperCase_ascii toLowerCase_ascii)

lemma camel_token_ascii:
  "list_all is_ascii t \<Longrightarrow>
   (if regex_test digitsRe t then t else capitalize U t) = camel_token t"
  by (cases t) (auto simp add: regex_test_digitsRe capitalize_ascii camel_token_def)

lemma render_camel_ascii:
  assumes "\<forall>t\<in>set ts. list_all is_ascii t"
  shows "render_camel U ts = lower_camel ts"
proof (cases ts)
  case Nil
  then show ?thesis by (simp add: render_camel_def)
next
  case (Cons p ps)
  with assms have p: "list_all is_ascii p" and ps: "\<forall>t\<in>set ps. list_all is_ascii t"
    by simp_all
  from ps have eq: "map (\<lambda>p. if regex_test digitsRe p then p else capitalize U p) ps = map camel_token ps"
    by (induction ps) (simp_all add: camel_token_ascii)
  from p Cons show ?thesis
    by (simp add: render_camel_def toLowerCase_ascii js_join_empty_sep eq)
qed

lemma dot_case_join: "dot_case ts = js_join (js ''.'') (map (map lower_ascii) ts)"
  by (induction ts rule: dot_case.induct) (simp_all add: js_join_Nil js_join_Cons js_def)

lemma render_dot_ascii:
  assumes "\<forall>t\<in>set ts. list_all is_ascii t"
  shows "render_dot U ts = dot_case ts"
proof -
  from assms have eq: "map (\<lambda>p. toLowerCase U p) ts = map (map lower_ascii) ts"
    by (induction ts) (simp_all add: toLowerCase_ascii)
  show ?thesis
    by (simp add: render_dot_def dot_case_join eq)
qed

lemma tokenize_ascii: "\<forall>t\<in>set (tokenize s). list_all is_ascii t"
  by (simp add: tokenize_alnum alnum_all_ascii)

lemma toCamelCase_string:
  "toCamelCase U (JString s) =
     Inr (if trim s = [] then [] else lower_camel (tokenize (trim s)))"
  by (simp add: render_camel_ascii [OF tokenize_ascii])

lemma toDotCase_string:
  "toDotCase U (JString s) =
     Inr (if trim s = [] then [] else dot_case (tokenize (trim s)))"
  by (simp add: render_dot_ascii [OF tokenize_ascii])

lemma map_lower_ascii_alnum: "list_all is_alnum t \<Longrightarrow> list_all is_alnum (map lower_ascii t)"
  by (induction t) (simp_all add: lower_ascii_alnum)

lemma camel_token_alnum: "list_all is_alnum t \<Longrightarrow> list_all is_alnum (camel_token t)"
  by (cases t) (simp_all add: camel_token_def upper_ascii_alnum map_lower_ascii_alnum)

lemma concat_camel_token_alnum:
  "\<forall>t\<in>set ts. list_all is_alnum t \<Longrightarrow> list_all is_alnum (concat (map camel_token ts))"
  by (induction ts) (simp_all add: camel_token_alnum)

lemma lower_camel_alnum:
  "\<forall>t\<in>set ts. list_all is_alnum t \<Longrightarrow> list_all is_alnum (lower_camel ts)"
  by (cases ts) (simp_all add: concat_camel_token_alnum map_lower_ascii_alnum)

lemma dot_case_chars:
  "\<forall>t\<in>set ts. list_all is_alnum t \<Longrightarrow> list_all (\<lambda>c. is_alnum c \<or> c = 0x2E) (dot_case ts)"
proof (induction ts rule: dot_case.induct)
  case 1
  show ?case by simp
next
  case (2 t)
  then have "list_all is_alnum (map lower_ascii t)" by (simp add: map_lower_ascii_alnum)
  then show ?case by (simp add: list_all_iff)
next
  case (3 t u us)
  then have "list_all is_alnum (map lower_ascii t)" by (simp add: map_lower_ascii_alnum)
  then have "list_all (\<lambda>c. is_alnum c \<or> c = 0x2E) (map lower_ascii t)" by (simp add: list_all_iff)
  with 3 show ?case by simp
qed

lemma trim_all_ws:
  assumes "list_all is_ws s"
  shows "trim s = []"
proof -
  from assms have eq: "dropWhile is_ws s = []" by (simp add: list_all_iff)
  show ?thesis by (simp add: trim_def eq)
qed

lemma rev_split_while: "xs = rev (dropWhile P (rev xs)) @ rev (takeWhile P (rev xs))"
  by (metis rev_append rev_rev_ident takeWhile_dropWhile_id)

lemma trim_decomp:
  "\<exists>a b. s = a @ trim s @ b \<and> list_all is_ws a \<and> list_all is_ws b"
proof -
  let ?d = "dropWhile is_ws s"
  have 1: "s = takeWhile is_ws s @ ?d" by simp
  have 2: "?d = trim s @ rev (takeWhile is_ws (rev ?d))"
    unfolding trim_def by (rule rev_split_while)
  have "s = takeWhile is_ws s @ trim s @ rev (takeWhile is_ws (rev ?d))"
    using 1 2 by metis
  moreover have "list_all is_ws (takeWhile is_ws s)"
    by (simp add: list_all_iff) (meson set_takeWhileD)
  moreover have "list_all is_ws (rev (takeWhile is_ws (rev ?d)))"
    by (simp add: list_all_iff) (meson set_takeWhileD)
  ultimately show ?thesis by blast
qed

lemma trim_ends:
  "trim s = [] \<or> (\<not> is_ws (hd (trim s)) \<and> \<not> is_ws (last (trim s)))"
proof (cases "trim s = []")
  case True
  then show ?thesis by simp
next
  case False
  let ?d = "dropWhile is_ws s"
  let ?r = "dropWhile is_ws (rev ?d)"
  from False have r: "?r \<noteq> []" by (simp add: trim_def)
  then have "\<not> is_ws (hd ?r)" by (rule hd_dropWhile)
  with r have l: "\<not> is_ws (last (trim s))" by (simp add: trim_def last_rev)
  have d: "?d \<noteq> []"
  proof
    assume e: "?d = []"
    have "?r = []" by (simp add: e)
    with r show False by contradiction
  qed
  then have hd_d: "\<not> is_ws (hd ?d)" by (rule hd_dropWhile)
  have "?d = trim s @ rev (takeWhile is_ws (rev ?d))"
    unfolding trim_def by (rule rev_split_while)
  with False have "hd ?d = hd (trim s)" by (metis hd_append2)
  with hd_d l show ?thesis by simp
qed

lemma trim_no_ws:
  assumes "\<forall>c\<in>set s. \<not> is_ws c"
  shows "trim s = s"
proof -
  have a: "dropWhile is_ws xs = xs" if "\<forall>c\<in>set xs. \<not> is_ws c" for xs
    using that by (cases xs) simp_all
  have "dropWhile is_ws (rev s) = rev s"
    using assms by (intro a) simp
  then show ?thesis
    using a [OF assms] by (simp add: trim_def)
qed

lemma trim_alnum: "list_all is_alnum s \<Longrightarrow> trim s = s"
  by (rule trim_no_ws) (auto simp add: list_all_iff dest: ws_not_alnum)

lemma collapse_ws_ascii: "list_all is_ascii s \<Longrightarrow> list_all is_ascii (collapse_ws b s)"
  by (induction b s rule: collapse_ws.induct) (simp_all add: ascii_unat)

lemma collapse_ws_8bit:
  "list_all (\<lambda>c. c < 0x100) s \<Longrightarrow> list_all (\<lambda>c. c < 0x100) (collapse_ws b s)"
  by (induction b s rule: collapse_ws.induct) (simp_all add: word_less_nat_alt)

lemma trim_subset: "set (trim s) \<subseteq> set s"
proof -
  obtain a b where "s = a @ trim s @ b" using trim_decomp by blast
  then have "set s = set a \<union> set (trim s) \<union> set b" by (metis set_append Un_assoc)
  then show ?thesis by blast
qed

lemma toKebabCase_string:
  "toKebabCase U (JString s) = Inr (toLowerCase U (collapse_ws False (trim s)))"
  by (simp add: regex_split_whitespaceRe)

subsection \<open>The examples of the specification\<close>

lemma ex_item_42_count:
  "toCamelCase U (JString (js ''item 42 count'')) = Inr (js ''item42Count'')"
  by code_simp

lemma ex_screen_name_camel:
  "toCamelCase U (JString (js ''SCREEN_NAME'')) = Inr (js ''screenName'')"
  by code_simp

lemma ex_screen_name_dot:
  "toDotCase U (JString (js ''SCREEN_NAME'')) = Inr (js ''screen.name'')"
  by code_simp

lemma ex_hello_world:
  "toKebabCase U (JString (js ''Hello   World'')) = Inr (js ''hello-world'')"
  by code_simp

lemma ex_e_acute_t:
  "toKebabCase U (JString [0xC9, 0x20, 0x54]) = Inr [0xE9, 0x2D, 0x74]"
  by code_simp

lemma ex_a_macron_t:
  "toKebabCase U (JString [0x100, 0x20, 0x54]) =
     Inr (unicodeLower U [] 0x100 [0x2D, 0x54] @ [0x2D, 0x74])"
  by code_simp simp

lemma ex_separators_refined:
  "toCamelCase U (JString (js ''  multiple---separators_here '')) = Inr (js ''multipleSeparatorsHere'')"
  by code_simp

lemma ex_separators_basic:
  "toCamelCase_basic U (JString (js ''  multiple---separators_here '')) = Inr (js ''multipleSeparatorsHere'')"
  by code_simp

lemma ex_first_name:
  "toCamelCase U (JString (js ''first name'')) = Inr (js ''firstName'')"
  by code_simp

lemma ex_firstName:
  "toCamelCase U (JString (js ''firstName'')) = Inr (js ''firstName'')"
  by code_simp

lemma ex_userId_2:
  "tokenize (trim (js ''userId_2'')) = [js ''userId'', js ''2'']"
  by code_simp

lemma ex_userId_space:
  "tokenize (trim (js ''userId '')) = [js ''user'', js ''Id'']"
  by code_simp

lemma ex_userId_space_split:
  "filter Boolean (regex_split separatorRe (js ''userId '')) = [js ''userId'']"
  by code_simp

lemma ex_userId_space_sep: "list_ex is_sep (js ''userId '')"
  by code_simp

lemma ex_userId_space_dot:
  "toDotCase identity_tables (JString (js ''userId '')) = Inr (js ''user.id'')"
  by code_simp

lemma ex_xml_camel:
  "toCamelCase U (JString (js ''XMLHttpRequest'')) = Inr (js ''xmlHttpRequest'')"
  by code_simp

lemma ex_xml_dot:
  "toDotCase U (JString (js ''XMLHttpRequest'')) = Inr (js ''xml.http.request'')"
  by code_simp

lemma ex_xml_tokens:
  "tokenize (js ''XMLHttpRequest'') = [js ''XML'', js ''Http'', js ''Request'']"
  by code_simp

subsection \<open>The alternatives of the token expression\<close>

lemma lower_follows_iff:
  "lower_follows s \<longleftrightarrow> dropWhile is_upper s \<noteq> [] \<and> is_lower (hd (dropWhile is_upper s))"
proof (cases "dropWhile is_upper s")
  case Nil
  show ?thesis unfolding lower_follows_def Nil by simp
next
  case (Cons c r)
  show ?thesis unfolding lower_follows_def Cons by simp
qed

lemma upper_not_lower: "is_upper c \<Longrightarrow> \<not> is_lower c"
  by (simp add: upper_unat lower_unat)

lemma upper_not_digit: "is_upper c \<Longrightarrow> \<not> is_digit c"
  by (simp add: upper_unat digit_unat)

lemma matcher_look:
  "matcher (Look (Seq (Cls upperC) (Cls lowerC))) (j, t) Some =
     (if length (takeWhile is_upper t) = 1 \<and> dropWhile is_upper t \<noteq> [] \<and>
         is_lower (hd (dropWhile is_upper t))
      then Some (j, t) else None)"
proof (cases t)
  case Nil
  then show ?thesis by simp
next
  case (Cons u t')
  show ?thesis
  proof (cases t')
    case Nil
    with Cons show ?thesis by simp
  next
    case (Cons l r)
    with \<open>t = u # t'\<close> show ?thesis
      by (auto simp add: upper_not_lower)
  qed
qed

lemma matcher_acronym:
  "matcher (Plus upperC) (i, s) (\<lambda>st. matcher (Look (Seq (Cls upperC) (Cls lowerC))) st Some) =
     (if acronym_ahead s
      then Some (i + length (takeWhile is_upper s) - 1,
                 last (takeWhile is_upper s) # dropWhile is_upper s)
      else None)"
proof (induction s arbitrary: i)
  case Nil
  show ?case by (simp add: acronym_ahead_def)
next
  case (Cons x xs)
  let ?k = "\<lambda>st. matcher (Look (Seq (Cls upperC) (Cls lowerC))) st Some"
  let ?run = "takeWhile is_upper xs"
  let ?rest = "dropWhile is_upper xs"
  show ?case
  proof (cases "is_upper x")
    case False
    then show ?thesis by (simp add: acronym_ahead_def)
  next
    case True
    have unfold: "matcher (Plus upperC) (i, x # xs) ?k =
        (case matcher (Plus upperC) (Suc i, xs) ?k of Some r \<Rightarrow> Some r | None \<Rightarrow> ?k (Suc i, xs))"
      by (subst matcher.simps(4)) (simp only: True if_True)
    have ahead: "acronym_ahead (x # xs) \<longleftrightarrow> 1 \<le> length ?run \<and> ?rest \<noteq> [] \<and> is_lower (hd ?rest)"
      using True by (auto simp add: acronym_ahead_def)
    show ?thesis
    proof (cases "acronym_ahead xs")
      case a: True
      then have run: "?run \<noteq> []" by (auto simp add: acronym_ahead_def)
      from a have "1 \<le> length ?run \<and> ?rest \<noteq> [] \<and> is_lower (hd ?rest)"
        unfolding acronym_ahead_def by linarith
      then have "acronym_ahead (x # xs)" using ahead by blast
      moreover have "matcher (Plus upperC) (i, x # xs) ?k =
          Some (Suc i + length ?run - 1, last ?run # ?rest)"
        by (simp only: unfold Cons.IH a if_True option.case)
      moreover have "Suc i + length ?run - 1 = i + length (takeWhile is_upper (x # xs)) - 1"
        using True by simp
      moreover have "last ?run = last (takeWhile is_upper (x # xs))"
        using True run by simp
      moreover have "?rest = dropWhile is_upper (x # xs)"
        using True by simp
      ultimately show ?thesis by (simp only: if_True)
    next
      case na: False
      have rec: "matcher (Plus upperC) (i, x # xs) ?k = ?k (Suc i, xs)"
        by (simp only: unfold Cons.IH na if_False option.case)
      show ?thesis
      proof (cases "length ?run = 1 \<and> ?rest \<noteq> [] \<and> is_lower (hd ?rest)")
        case one: True
        then have "1 \<le> length ?run \<and> ?rest \<noteq> [] \<and> is_lower (hd ?rest)" by linarith
        then have "acronym_ahead (x # xs)" using ahead by blast
        moreover have "?k (Suc i, xs) = Some (Suc i, xs)"
          using one by (simp add: matcher_look del: matcher.simps)
        moreover have "i + length (takeWhile is_upper (x # xs)) - 1 = Suc i"
          using True one by simp
        moreover have "last (takeWhile is_upper (x # xs)) # dropWhile is_upper (x # xs) = xs"
        proof -
          from one obtain u where u: "?run = [u]" by (cases ?run) auto
          have "xs = ?run @ ?rest" by simp
          with u have "xs = u # ?rest" by simp
          moreover have "last (takeWhile is_upper (x # xs)) = u" using True u by simp
          moreover have "dropWhile is_upper (x # xs) = ?rest" using True by simp
          ultimately show ?thesis by simp
        qed
        ultimately show ?thesis by (simp only: rec if_True)
      next
        case notone: False
        have "\<not> acronym_ahead (x # xs)"
        proof
          assume "acronym_ahead (x # xs)"
          then have h: "1 \<le> length ?run \<and> ?rest \<noteq> [] \<and> is_lower (hd ?rest)" using ahead by blast
          with na have "\<not> 2 \<le> length ?run" unfolding acronym_ahead_def by blast
          with h have "length ?run = 1" by linarith
          with h notone show False by blast
        qed
        moreover have "?k (Suc i, xs) = None"
          using notone by (simp add: matcher_look del: matcher.simps)
        ultimately show ?thesis by (simp only: rec if_False)
      qed
    qed
  qed
qed

lemma matcher_word:
  "matcher (Seq (Opt upperC) (Plus lowerC)) (i, s) Some =
     (case s of
        [] \<Rightarrow> None
      | x # xs \<Rightarrow>
          if is_upper x
          then (if xs \<noteq> [] \<and> is_lower (hd xs)
                then Some (Suc i + length (takeWhile is_lower xs), dropWhile is_lower xs)
                else None)
          else if is_lower x
          then Some (i + length (takeWhile is_lower s), dropWhile is_lower s)
          else None)"
proof (cases s)
  case Nil
  then show ?thesis by simp
next
  case (Cons x xs)
  have low: "\<And>j t. matcher (Plus lowerC) (j, t) Some = match_at (Plus lowerC) (j, t)"
    by (simp add: match_at_def)
  show ?thesis
  proof (cases "is_upper x")
    case True
    then have nl: "\<not> is_lower x" by (rule upper_not_lower)
    from True nl Cons show ?thesis
      by (cases xs) (simp_all add: matcher_Plus_Some)
  next
    case False
    with Cons show ?thesis
      by (simp add: matcher_Plus_Some)
  qed
qed

subsection \<open>The token expression is the boundary scan\<close>

lemma tokenRe_unfold:
  "match_at tokenRe st =
     (case matcher (Plus upperC) st (\<lambda>st'. matcher (Look (Seq (Cls upperC) (Cls lowerC))) st' Some) of
        Some r \<Rightarrow> Some r
      | None \<Rightarrow>
         (case matcher (Seq (Opt upperC) (Plus lowerC)) st Some of
            Some r \<Rightarrow> Some r
          | None \<Rightarrow>
             (case match_at (Plus upperC) st of
                Some r \<Rightarrow> Some r
              | None \<Rightarrow> match_at (Plus digitC) st)))"
  by (simp only: match_at_def tokenRe_def matcher.simps(7,8))

lemma boundary_token_acronym:
  "acronym_ahead s \<Longrightarrow>
   boundary_token s = Some (butlast (takeWhile is_upper s), last (takeWhile is_upper s) # dropWhile is_upper s)"
  by (simp add: boundary_token_def lower_follows_iff acronym_ahead_def Let_def)

lemma match_at_tokenRe:
  "match_at tokenRe (i, s) =
     map_option (\<lambda>(tok, rest). (i + length tok, rest)) (boundary_token s)"
proof (cases "acronym_ahead s")
  case True
  then have "takeWhile is_upper s \<noteq> []" by (auto simp add: acronym_ahead_def)
  then have "i + length (takeWhile is_upper s) - 1 = i + length (butlast (takeWhile is_upper s))"
    by (cases "takeWhile is_upper s") simp_all
  with True show ?thesis
    by (simp add: tokenRe_unfold matcher_acronym boundary_token_acronym del: matcher.simps)
next
  case False
  note na = this
  show ?thesis
  proof (cases s)
    case Nil
    then show ?thesis
      by (simp add: tokenRe_unfold matcher_acronym matcher_word match_at_Plus boundary_token_def lower_follows_iff acronym_ahead_def del: matcher.simps)
  next
    case (Cons x xs)
    show ?thesis
    proof (cases "is_upper x")
      case up: True
      then have nl: "\<not> is_lower x" and nd: "\<not> is_digit x"
        by (simp_all add: upper_not_lower upper_not_digit)
      show ?thesis
      proof (cases "xs \<noteq> [] \<and> is_lower (hd xs)")
        case True
        then have "\<not> is_upper (hd xs)" using upper_not_lower by blast
        with True have "takeWhile is_upper xs = []" "dropWhile is_upper xs = xs"
          by (cases xs; simp)+
        with na Cons up nl True show ?thesis
          by (simp add: tokenRe_unfold matcher_acronym matcher_word match_at_Plus boundary_token_def lower_follows_iff Let_def del: matcher.simps)
      next
        case False
        have c2: "(length (takeWhile is_upper s) \<le> 1 \<and> dropWhile is_upper s \<noteq> [] \<and> is_lower (hd (dropWhile is_upper s))) = False"
        proof -
          have "\<not> (length (takeWhile is_upper s) \<le> 1 \<and> dropWhile is_upper s \<noteq> [] \<and> is_lower (hd (dropWhile is_upper s)))"
          proof
            assume h: "length (takeWhile is_upper s) \<le> 1 \<and> dropWhile is_upper s \<noteq> [] \<and> is_lower (hd (dropWhile is_upper s))"
            with Cons up have "takeWhile is_upper xs = []" by simp
            then have "dropWhile is_upper xs = xs" by (cases xs) (simp_all split: if_splits)
            with h Cons up False show False by simp
          qed
          then show ?thesis by blast
        qed
        have c1: "(2 \<le> length (takeWhile is_upper s) \<and> dropWhile is_upper s \<noteq> [] \<and> is_lower (hd (dropWhile is_upper s))) = False"
          using na unfolding acronym_ahead_def by blast
        have c3: "(takeWhile is_upper s \<noteq> []) = True"
          using Cons up by simp
        have bt: "boundary_token s = Some (takeWhile is_upper s, dropWhile is_upper s)"
          unfolding boundary_token_def lower_follows_iff Let_def c1 c2 c3 by simp
        have nl2: "(xs \<noteq> [] \<and> is_lower (hd xs)) = False"
          using False by blast
        have a: "matcher (Plus upperC) (i, s)
                   (\<lambda>st'. matcher (Look (Seq (Cls upperC) (Cls lowerC))) st' Some) = None"
          using na by (simp add: matcher_acronym del: matcher.simps)
        have w: "matcher (Seq (Opt upperC) (Plus lowerC)) (i, s) Some = None"
          unfolding Cons using up by (simp add: matcher_word nl2 del: matcher.simps)
        have p: "match_at (Plus upperC) (i, s) =
                   Some (i + length (takeWhile is_upper s), dropWhile is_upper s)"
          using Cons up by (simp add: match_at_Plus)
        show ?thesis
          by (simp only: tokenRe_unfold a w p bt) simp
      qed
    next
      case nu: False
      with Cons have run: "takeWhile is_upper s = []" "dropWhile is_upper s = s" by simp_all
      show ?thesis
      proof (cases "is_lower x")
        case True
        with na Cons nu run show ?thesis
          by (simp add: tokenRe_unfold matcher_acronym matcher_word match_at_Plus boundary_token_def lower_follows_iff Let_def del: matcher.simps)
      next
        case False
        with na Cons nu run show ?thesis
          by (simp add: tokenRe_unfold matcher_acronym matcher_word match_at_Plus boundary_token_def lower_follows_iff Let_def del: matcher.simps)
      qed
    qed
  qed
qed

subsection \<open>The boundary scan partitions its input\<close>

lemma boundary_token_word:
  "\<not> 2 \<le> length (takeWhile is_upper s) \<Longrightarrow> lower_follows s \<Longrightarrow>
   boundary_token s =
     Some (takeWhile is_upper s @ takeWhile is_lower (dropWhile is_upper s),
           dropWhile is_lower (dropWhile is_upper s))"
  by (simp add: boundary_token_def Let_def)

lemma boundary_token_run:
  "\<not> lower_follows s \<Longrightarrow> takeWhile is_upper s \<noteq> [] \<Longrightarrow>
   boundary_token s = Some (takeWhile is_upper s, dropWhile is_upper s)"
  by (simp add: boundary_token_def Let_def)

lemma boundary_token_digits:
  "\<not> lower_follows s \<Longrightarrow> takeWhile is_upper s = [] \<Longrightarrow> s \<noteq> [] \<Longrightarrow> is_digit (hd s) \<Longrightarrow>
   boundary_token s = Some (takeWhile is_digit s, dropWhile is_digit s)"
  by (simp add: boundary_token_def Let_def)

lemma boundary_token_none:
  "\<not> lower_follows s \<Longrightarrow> takeWhile is_upper s = [] \<Longrightarrow> \<not> (s \<noteq> [] \<and> is_digit (hd s)) \<Longrightarrow>
   boundary_token s = None"
  by (simp add: boundary_token_def Let_def)

lemma boundary_token_splits:
  assumes "boundary_token s = Some (tok, rest)"
  shows "s = tok @ rest \<and> tok \<noteq> []"
proof -
  let ?run = "takeWhile is_upper s"
  let ?rest = "dropWhile is_upper s"
  have s: "s = ?run @ ?rest" by simp
  show ?thesis
  proof (cases "lower_follows s")
    case low: True
    then have low': "?rest \<noteq> [] \<and> is_lower (hd ?rest)" using lower_follows_iff by blast
    show ?thesis
    proof (cases "2 \<le> length ?run")
      case True
      with low' have "acronym_ahead s" by (simp add: acronym_ahead_def)
      with assms have tok: "tok = butlast ?run" and rest: "rest = last ?run # ?rest"
        by (simp_all add: boundary_token_acronym)
      from True have ne: "?run \<noteq> []" by auto
      then have "butlast ?run @ [last ?run] = ?run" by (rule append_butlast_last_id)
      then have "butlast ?run @ last ?run # ?rest = ?run @ ?rest"
        by (metis append_Cons append_Nil append_assoc)
      then have "s = tok @ rest" unfolding tok rest by simp
      moreover have "butlast ?run \<noteq> []"
        using True by (cases ?run rule: rev_cases) auto
      ultimately show ?thesis unfolding tok by simp
    next
      case False
      with low assms have tok: "tok = ?run @ takeWhile is_lower ?rest"
        and rest: "rest = dropWhile is_lower ?rest"
        by (simp_all add: boundary_token_word)
      have "takeWhile is_lower ?rest \<noteq> []"
        using low' by (cases ?rest) auto
      moreover have "(?run @ takeWhile is_lower ?rest) @ dropWhile is_lower ?rest = ?run @ ?rest"
        by simp
      then have "s = tok @ rest" unfolding tok rest by simp
      ultimately show ?thesis unfolding tok by simp
    qed
  next
    case nolow: False
    show ?thesis
    proof (cases "?run = []")
      case False
      with nolow assms have "tok = ?run" "rest = ?rest"
        by (simp_all add: boundary_token_run)
      with False show ?thesis by simp
    next
      case True
      show ?thesis
      proof (cases "s \<noteq> [] \<and> is_digit (hd s)")
        case d: True
        with nolow True assms have tok: "tok = takeWhile is_digit s" and rest: "rest = dropWhile is_digit s"
          by (simp_all add: boundary_token_digits)
        have "takeWhile is_digit s \<noteq> []"
          using d by (cases s) auto
        then show ?thesis unfolding tok rest by simp
      next
        case False
        with nolow True have "boundary_token s = None" by (rule boundary_token_none)
        with assms show ?thesis by simp
      qed
    qed
  qed
qed

lemma boundary_token_alnum:
  assumes "s \<noteq> []" and "is_alnum (hd s)"
  shows "boundary_token s \<noteq> None"
proof -
  from assms obtain x xs where s: "s = x # xs" by (cases s) auto
  with assms have "is_upper x \<or> is_lower x \<or> is_digit x" by (simp add: alnum_cases)
  then show ?thesis
    unfolding boundary_token_def Let_def lower_follows_iff s
    by (auto simp add: upper_not_lower)
qed

lemma match_loop_step:
  assumes "boundary_token s = Some (tok, rest)"
  shows "match_loop tokenRe i s = tok # match_loop tokenRe (i + length tok) rest"
proof -
  from assms have s: "s = tok @ rest" and tok: "tok \<noteq> []"
    by (simp_all add: boundary_token_splits)
  from s tok have "s \<noteq> []" by simp
  then obtain x xs where xs: "s = x # xs" by (cases s) simp_all
  have m: "match_at tokenRe (i, x # xs) = Some (i + length tok, rest)"
    using assms xs by (simp add: match_at_tokenRe)
  have len: "length rest < length (x # xs)"
    using s tok xs by (metis length_append length_greater_0_conv less_add_same_cancel2)
  have "take (length (x # xs) - length rest) (x # xs) = tok"
    using s xs by (metis add_diff_cancel_right' append_eq_conv_conj length_append)
  with m len show ?thesis
    unfolding xs by simp
qed

lemma match_loop_tokenRe_Nil: "match_loop tokenRe i [] = []"
  by (simp add: match_at_tokenRe boundary_token_def lower_follows_iff)

lemma match_loop_partition:
  "list_all is_alnum s \<Longrightarrow> concat (match_loop tokenRe i s) = s"
proof (induction s arbitrary: i rule: length_induct)
  case (1 s)
  show ?case
  proof (cases s)
    case Nil
    then show ?thesis by (simp add: match_loop_tokenRe_Nil del: match_loop.simps)
  next
    case (Cons x xs)
    with "1.prems" have "boundary_token s \<noteq> None"
      by (intro boundary_token_alnum) simp_all
    then obtain tok rest where bt: "boundary_token s = Some (tok, rest)" by auto
    then have s: "s = tok @ rest" and tok: "tok \<noteq> []"
      by (simp_all add: boundary_token_splits)
    from s tok have "length rest < length s"
      by (metis length_append length_greater_0_conv less_add_same_cancel2)
    moreover from s "1.prems" have "list_all is_alnum rest"
      by (metis list_all_append)
    ultimately have "concat (match_loop tokenRe (i + length tok) rest) = rest"
      using "1.IH" by blast
    then have "concat (match_loop tokenRe i s) = tok @ rest"
      by (simp only: match_loop_step [OF bt] concat.simps)
    then show ?thesis by (simp only: s [symmetric])
  qed
qed

lemma match_loop_nonempty_tokens:
  "list_all is_alnum s \<Longrightarrow> [] \<notin> set (match_loop tokenRe i s)"
proof (induction s arbitrary: i rule: length_induct)
  case (1 s)
  show ?case
  proof (cases s)
    case Nil
    then show ?thesis by (simp add: match_loop_tokenRe_Nil del: match_loop.simps)
  next
    case (Cons x xs)
    with "1.prems" have "boundary_token s \<noteq> None"
      by (intro boundary_token_alnum) simp_all
    then obtain tok rest where bt: "boundary_token s = Some (tok, rest)" by auto
    then have s: "s = tok @ rest" and tok: "tok \<noteq> []"
      by (simp_all add: boundary_token_splits)
    from s tok have "length rest < length s"
      by (metis length_append length_greater_0_conv less_add_same_cancel2)
    moreover from s "1.prems" have "list_all is_alnum rest"
      by (metis list_all_append)
    ultimately have "[] \<notin> set (match_loop tokenRe (i + length tok) rest)"
      using "1.IH" by blast
    with tok show ?thesis
      by (simp only: match_loop_step [OF bt]) auto
  qed
qed

lemma tokenize_boundary:
  assumes "list_all is_alnum s" and "s \<noteq> []"
  shows "tokenize s = match_loop tokenRe 0 s"
proof -
  from assms(1) have nosep: "\<not> regex_test separatorRe s"
    by (simp add: regex_test_separatorRe is_sep_iff list_all_iff list_ex_iff)
  from assms have "boundary_token s \<noteq> None"
    by (intro boundary_token_alnum) (simp_all add: list_all_iff)
  then obtain tok rest where bt: "boundary_token s = Some (tok, rest)" by auto
  have "match_loop tokenRe 0 s = tok # match_loop tokenRe (0 + length tok) rest"
    by (rule match_loop_step [OF bt])
  then show ?thesis
    using nosep by (simp add: tokenize_def regex_match_def)
qed

subsection \<open>Acronyms inside an identifier\<close>

lemma takeWhile_append_stop:
  "s' \<noteq> [] \<Longrightarrow> \<not> P (hd s') \<Longrightarrow> takeWhile P (a @ s') = takeWhile P a"
  by (induction a) (simp_all, cases s', simp_all)

lemma dropWhile_append_stop:
  "s' \<noteq> [] \<Longrightarrow> \<not> P (hd s') \<Longrightarrow> dropWhile P (a @ s') = dropWhile P a @ s'"
  by (induction a) (simp_all, cases s', simp_all)

lemma boundary_token_append:
  assumes pre: "pre \<noteq> []" "list_all is_alnum pre" "\<not> is_upper (last pre)"
    and s': "s' \<noteq> []" "is_upper (hd s')"
  shows "\<exists>tok pre'. boundary_token (pre @ s') = Some (tok, pre' @ s') \<and> pre = tok @ pre' \<and> tok \<noteq> []"
proof -
  let ?run = "takeWhile is_upper pre"
  let ?rest = "dropWhile is_upper pre"
  from pre(1) have mem: "last pre \<in> set pre" by simp
  have run: "takeWhile is_upper (pre @ s') = ?run"
    using mem pre(3) by (rule takeWhile_append1)
  have rest: "dropWhile is_upper (pre @ s') = ?rest @ s'"
    using mem pre(3) by (rule dropWhile_append1)
  have rest_ne: "?rest \<noteq> []"
  proof
    assume "?rest = []"
    then have "\<forall>x\<in>set pre. is_upper x" by (simp only: dropWhile_eq_Nil_conv)
    with mem pre(3) show False by blast
  qed
  have split: "pre = ?run @ ?rest" by simp
  have lf: "lower_follows (pre @ s') = lower_follows pre"
    using rest_ne by (simp add: lower_follows_iff rest)
  have nl: "\<not> is_lower (hd s')" and nd: "\<not> is_digit (hd s')"
    using s'(2) by (simp_all add: upper_not_lower upper_not_digit)
  show ?thesis
  proof (cases "lower_follows pre")
    case low: True
    then have low': "is_lower (hd ?rest)" by (simp add: lower_follows_iff)
    show ?thesis
    proof (cases "2 \<le> length ?run")
      case True
      with low have "acronym_ahead (pre @ s')"
        using lf lower_follows_iff run acronym_ahead_def by metis
      then have "boundary_token (pre @ s') = Some (butlast ?run, (last ?run # ?rest) @ s')"
        by (simp add: boundary_token_acronym run rest)
      moreover have "pre = butlast ?run @ (last ?run # ?rest)"
      proof -
        from True have "?run \<noteq> []" by auto
        then have "butlast ?run @ [last ?run] = ?run" by (rule append_butlast_last_id)
        then have "butlast ?run @ (last ?run # ?rest) = ?run @ ?rest"
          by (metis append_Cons append_Nil append_assoc)
        with split show ?thesis by simp
      qed
      moreover have "butlast ?run \<noteq> []"
        using True by (cases ?run rule: rev_cases) auto
      ultimately show ?thesis by blast
    next
      case False
      have n2: "\<not> 2 \<le> length (takeWhile is_upper (pre @ s'))"
        unfolding run using False .
      have lf': "lower_follows (pre @ s')" using low lf by simp
      have "boundary_token (pre @ s') =
          Some (takeWhile is_upper (pre @ s') @ takeWhile is_lower (dropWhile is_upper (pre @ s')),
                dropWhile is_lower (dropWhile is_upper (pre @ s')))"
        using n2 lf' by (rule boundary_token_word)
      then have "boundary_token (pre @ s') =
          Some (?run @ takeWhile is_lower ?rest, dropWhile is_lower ?rest @ s')"
        unfolding run rest takeWhile_append_stop [where P = is_lower and s' = s', OF s'(1) nl] dropWhile_append_stop [where P = is_lower and s' = s', OF s'(1) nl] .
      moreover have "pre = (?run @ takeWhile is_lower ?rest) @ dropWhile is_lower ?rest"
        by simp
      moreover have "takeWhile is_lower ?rest \<noteq> []"
        using rest_ne low' by (cases ?rest) auto
      then have "?run @ takeWhile is_lower ?rest \<noteq> []" by simp
      ultimately show ?thesis by blast
    qed
  next
    case nolow: False
    then have nlf: "\<not> lower_follows (pre @ s')" using lf by simp
    show ?thesis
    proof (cases "?run = []")
      case False
      then have "takeWhile is_upper (pre @ s') \<noteq> []" unfolding run .
      with nlf have "boundary_token (pre @ s') =
          Some (takeWhile is_upper (pre @ s'), dropWhile is_upper (pre @ s'))"
        by (rule boundary_token_run)
      then have "boundary_token (pre @ s') = Some (?run, ?rest @ s')" unfolding run rest .
      with split False show ?thesis by blast
    next
      case True
      then have rp: "?rest = pre" using split by simp
      from pre(1) obtain x xs where x: "pre = x # xs" by (cases pre) simp_all
      with True have "\<not> is_upper x" by (simp split: if_splits)
      moreover from nolow rp x have "\<not> is_lower x"
        by (simp add: lower_follows_iff)
      moreover from pre(2) x have "is_alnum x" by simp
      ultimately have d: "is_digit x" by (simp add: alnum_cases)
      have "takeWhile is_upper (pre @ s') = []" using True run by simp
      moreover have "pre @ s' \<noteq> []" using pre(1) by simp
      moreover have "is_digit (hd (pre @ s'))" using x d by simp
      ultimately have "boundary_token (pre @ s') =
          Some (takeWhile is_digit (pre @ s'), dropWhile is_digit (pre @ s'))"
        using nlf by (intro boundary_token_digits)
      then have "boundary_token (pre @ s') =
          Some (takeWhile is_digit pre, dropWhile is_digit pre @ s')"
        unfolding takeWhile_append_stop [where P = is_digit and s' = s', OF s'(1) nd] dropWhile_append_stop [where P = is_digit and s' = s', OF s'(1) nd] .
      moreover have "pre = takeWhile is_digit pre @ dropWhile is_digit pre" by simp
      moreover have "takeWhile is_digit pre \<noteq> []" using x d by simp
      ultimately show ?thesis by blast
    qed
  qed
qed

lemma match_loop_prefix:
  assumes s': "s' \<noteq> []" "is_upper (hd s')"
  shows "list_all is_alnum pre \<Longrightarrow> pre = [] \<or> \<not> is_upper (last pre) \<Longrightarrow>
         \<exists>ts. match_loop tokenRe i (pre @ s') = ts @ match_loop tokenRe (i + length pre) s' \<and>
              concat ts = pre"
proof (induction pre arbitrary: i rule: length_induct)
  case (1 pre)
  show ?case
  proof (cases "pre = []")
    case True
    then have "match_loop tokenRe i (pre @ s') = [] @ match_loop tokenRe (i + length pre) s' \<and> concat [] = pre"
      by simp
    then show ?thesis by blast
  next
    case False
    with "1.prems" have nu: "\<not> is_upper (last pre)" by blast
    from boundary_token_append [OF False "1.prems"(1) nu s']
    obtain tok pre' where bt: "boundary_token (pre @ s') = Some (tok, pre' @ s')"
      and pre: "pre = tok @ pre'" and tok: "tok \<noteq> []" by blast
    have len: "length pre' < length pre" using pre tok
      by (metis length_append length_greater_0_conv less_add_same_cancel2)
    have al: "list_all is_alnum pre'" using "1.prems"(1) pre by (metis list_all_append)
    have la: "pre' = [] \<or> \<not> is_upper (last pre')"
      using nu pre by (metis last_appendR)
    from "1.IH" len al la
    obtain ts where ts: "match_loop tokenRe (i + length tok) (pre' @ s') =
        ts @ match_loop tokenRe (i + length tok + length pre') s'" and c: "concat ts = pre'"
      by blast
    have "i + length tok + length pre' = i + length pre" using pre
      by (metis add.assoc length_append)
    with ts have "match_loop tokenRe i (pre @ s') = (tok # ts) @ match_loop tokenRe (i + length pre) s'"
      by (simp only: match_loop_step [OF bt] append_Cons)
    moreover have "concat (tok # ts) = pre" using c pre by simp
    ultimately show ?thesis by blast
  qed
qed

lemma boundary_token_acronym_word:
  assumes "U \<noteq> []" "list_all is_upper U" "is_upper u" "is_lower l"
  shows "boundary_token (U @ u # l # t) = Some (U, u # l # t)"
proof -
  have nl: "\<not> is_upper l" using assms(4) upper_not_lower by blast
  have "takeWhile is_upper ((U @ [u]) @ l # t) = (U @ [u]) @ takeWhile is_upper (l # t)"
    using assms(2,3) by (intro takeWhile_append2) (auto simp add: list_all_iff)
  then have run: "takeWhile is_upper (U @ u # l # t) = U @ [u]" using nl by simp
  have "dropWhile is_upper ((U @ [u]) @ l # t) = dropWhile is_upper (l # t)"
    using assms(2,3) by (intro dropWhile_append2) (auto simp add: list_all_iff)
  then have rest: "dropWhile is_upper (U @ u # l # t) = l # t" using nl by simp
  have "acronym_ahead (U @ u # l # t)"
    unfolding acronym_ahead_def run rest using assms(1,4) by (cases U) simp_all
  then show ?thesis
    by (simp add: boundary_token_acronym run rest)
qed

lemma boundary_token_capitalized:
  assumes "is_upper u" "is_lower l"
  shows "boundary_token (u # l # t) = Some (u # takeWhile is_lower (l # t), dropWhile is_lower (l # t))"
proof -
  have nl: "\<not> is_upper l" using assms(2) upper_not_lower by blast
  have run: "takeWhile is_upper (u # l # t) = [u]" using assms(1) nl by simp
  have rest: "dropWhile is_upper (u # l # t) = l # t" using assms(1) nl by simp
  have "lower_follows (u # l # t)" unfolding lower_follows_iff rest using assms(2) by simp
  moreover have "\<not> 2 \<le> length (takeWhile is_upper (u # l # t))" unfolding run by simp
  ultimately have "boundary_token (u # l # t) =
      Some (takeWhile is_upper (u # l # t) @ takeWhile is_lower (dropWhile is_upper (u # l # t)),
            dropWhile is_lower (dropWhile is_upper (u # l # t)))"
    by (intro boundary_token_word)
  then show ?thesis unfolding run rest by simp
qed

lemma acronym_split:
  assumes al: "list_all is_alnum (pre @ U @ u # l # t)"
    and pre: "pre = [] \<or> \<not> is_upper (last pre)"
    and U: "U \<noteq> []" "list_all is_upper U" and u: "is_upper u" and l: "is_lower l"
  shows "\<exists>ts1 ts2. tokenize (pre @ U @ u # l # t)
            = ts1 @ U # (u # takeWhile is_lower (l # t)) # ts2 \<and>
          concat ts1 = pre \<and> concat ts2 = dropWhile is_lower (l # t)"
proof -
  let ?s' = "U @ u # l # t"
  have s': "?s' \<noteq> []" "is_upper (hd ?s')" using U by (cases U; simp)+
  from al have alpre: "list_all is_alnum pre" and als': "list_all is_alnum ?s'"
    by (simp_all only: list_all_append)
  from match_loop_prefix [OF s' alpre pre, of 0]
  obtain ts1 where ts1: "match_loop tokenRe 0 (pre @ ?s') = ts1 @ match_loop tokenRe (0 + length pre) ?s'"
    and c1: "concat ts1 = pre" by blast
  let ?j = "0 + length pre"
  let ?w = "u # takeWhile is_lower (l # t)"
  let ?r = "dropWhile is_lower (l # t)"
  have step1: "match_loop tokenRe ?j ?s' = U # match_loop tokenRe (?j + length U) (u # l # t)"
    by (rule match_loop_step [OF boundary_token_acronym_word [OF U u l]])
  have step2: "match_loop tokenRe (?j + length U) (u # l # t) =
      ?w # match_loop tokenRe (?j + length U + length ?w) ?r"
    by (rule match_loop_step [OF boundary_token_capitalized [OF u l]])
  have "u # l # t = ?w @ ?r" by simp
  with als' have "list_all is_alnum ?r" by (metis list_all_append)
  then have c2: "concat (match_loop tokenRe (?j + length U + length ?w) ?r) = ?r"
    by (rule match_loop_partition)
  have "pre @ ?s' \<noteq> []" using U(1) by simp
  with al have "tokenize (pre @ ?s') = match_loop tokenRe 0 (pre @ ?s')"
    by (intro tokenize_boundary)
  then have "tokenize (pre @ ?s') =
      ts1 @ U # ?w # match_loop tokenRe (?j + length U + length ?w) ?r"
    by (simp only: ts1 step1 step2)
  with c1 c2 show ?thesis by blast
qed

section \<open>The claims\<close>

subsection \<open>C1: non-string input\<close>

text \<open>
  C1, as stated, asks every converter to raise on every non-string input. The
  \<^verbatim>\<open>toCamelCase\<close> of \<^verbatim>\<open>basic_prompt.js\<close> has the guard
  \<^verbatim>\<open>if (typeof str !== 'string') return ''\<close> and returns the empty string: here for
  the number 42.
\<close>

theorem basic_non_string_counterexample:
  "typeof (JNumber 42) \<noteq> ''string'' \<and>
   toCamelCase_basic identity_tables (JNumber 42) = Inr []"
  by simp

text \<open>
  C1, amended: for every input that is not a string, \<^verbatim>\<open>toCamelCase\<close> and
  \<^verbatim>\<open>toDotCase\<close> of \<^verbatim>\<open>refined_prompt.js\<close> raise a TypeError and \<^verbatim>\<open>toKebabCase\<close>
  raises an Error, so none of them returns a string; \<^verbatim>\<open>toCamelCase\<close> of
  \<^verbatim>\<open>basic_prompt.js\<close> returns the empty string.
\<close>

theorem non_string_input:
  assumes "typeof v \<noteq> ''string''"
  shows "(\<exists>msg. toCamelCase U v = Inl (TypeError msg)) \<and>
         (\<exists>msg. toDotCase U v = Inl (TypeError msg)) \<and>
         toKebabCase U v = Inl (Error ''Invalid input: expected a non-null string.'') \<and>
         toCamelCase_basic U v = Inr []"
  using assms by (cases v) simp_all

theorem non_string_input_witness:
  "typeof (JArray []) \<noteq> ''string'' \<and>
   (\<exists>msg. toCamelCase identity_tables (JArray []) = Inl (TypeError msg)) \<and>
   (\<exists>msg. toDotCase identity_tables (JArray []) = Inl (TypeError msg)) \<and>
   toKebabCase identity_tables (JArray []) =
     Inl (Error ''Invalid input: expected a non-null string.'') \<and>
   toCamelCase_basic identity_tables (JArray []) = Inr []"
proof -
  have h: "typeof (JArray []) \<noteq> ''string''" by simp
  from non_string_input [OF h, of identity_tables] h show ?thesis by blast
qed

subsection \<open>C2: the separator strategy\<close>

text \<open>
  C2, as stated, speaks of every string input with a character that is not a letter or a
  digit. The converters trim first and choose the strategy on the trimmed string, so an
  input whose only such characters are leading or trailing white space goes through the
  boundary scan: the input \<^verbatim>\<open>"userId "\<close> contains a space, its tokens are
  \<^verbatim>\<open>["user", "Id"]\<close>, and splitting it on its separators alone gives
  \<^verbatim>\<open>["userId"]\<close>.
\<close>

theorem trimmed_input_counterexample:
  "list_ex is_sep (js ''userId '') \<and>
   tokenize (trim (js ''userId '')) = [js ''user'', js ''Id''] \<and>
   filter Boolean (regex_split separatorRe (js ''userId '')) = [js ''userId''] \<and>
   toDotCase identity_tables (JString (js ''userId '')) = Inr (js ''user.id'')"
  by (simp only: ex_userId_space_sep ex_userId_space ex_userId_space_split
        ex_userId_space_dot simp_thms)

text \<open>
  C2, amended: for every string input whose trimmed form contains at least one character
  outside the ASCII letters and digits, the tokens are exactly the maximal runs of
  letters and digits of the trimmed form, obtained by splitting on the separator runs,
  and both converters render those tokens; the boundary scan plays no part. In
  particular \<^verbatim>\<open>"userId_2"\<close> yields \<^verbatim>\<open>["userId", "2"]\<close>.
\<close>

theorem separator_strategy:
  "(list_ex is_sep (trim s) \<longrightarrow>
      tokenize (trim s) = filter Boolean (regex_split separatorRe (trim s)) \<and>
      tokenize (trim s) = sep_tokens [] (trim s) \<and>
      toCamelCase U (JString s) = Inr (lower_camel (sep_tokens [] (trim s))) \<and>
      toDotCase U (JString s) = Inr (dot_case (sep_tokens [] (trim s)))) \<and>
   tokenize (trim (js ''userId_2'')) = [js ''userId'', js ''2'']"
proof -
  have "tokenize (trim s) = filter Boolean (regex_split separatorRe (trim s)) \<and>
        tokenize (trim s) = sep_tokens [] (trim s) \<and>
        toCamelCase U (JString s) = Inr (lower_camel (sep_tokens [] (trim s))) \<and>
        toDotCase U (JString s) = Inr (dot_case (sep_tokens [] (trim s)))"
    if sep: "list_ex is_sep (trim s)"
  proof -
    from sep have t: "regex_test separatorRe (trim s)"
      by (simp only: regex_test_separatorRe)
    then have tok: "tokenize (trim s) = filter Boolean (regex_split separatorRe (trim s))"
      by (simp add: tokenize_def)
    then have tok': "tokenize (trim s) = sep_tokens [] (trim s)"
      by (simp only: regex_split_separatorRe)
    from sep have ne: "trim s \<noteq> []" by auto
    have "toCamelCase U (JString s) = Inr (lower_camel (sep_tokens [] (trim s)))"
      using ne by (simp only: toCamelCase_string tok' if_False)
    moreover have "toDotCase U (JString s) = Inr (dot_case (sep_tokens [] (trim s)))"
      using ne by (simp only: toDotCase_string tok' if_False)
    ultimately show ?thesis using tok tok' by blast
  qed
  with ex_userId_2 show ?thesis by blast
qed

theorem separator_strategy_witness:
  "list_ex is_sep (trim (js ''userId_2'')) \<and>
   tokenize (trim (js ''userId_2'')) = sep_tokens [] (trim (js ''userId_2'')) \<and>
   toDotCase identity_tables (JString (js ''userId_2'')) =
     Inr (dot_case (sep_tokens [] (trim (js ''userId_2''))))"
proof -
  have h: "list_ex is_sep (trim (js ''userId_2''))" by code_simp
  from separator_strategy [of "js ''userId_2''" identity_tables] h show ?thesis by blast
qed

subsection \<open>C3: the acronym boundary\<close>

text \<open>
  C3: in an input of letters and digits only, take an uppercase run of two or more
  letters, \<open>U\<close> followed by its last letter \<open>u\<close>, that starts the input or follows
  a character that is not uppercase, and let a lowercase letter \<open>l\<close> come next. Then
  trimming leaves the input as it is and \<open>U\<close>, the run without its last letter, is
  one token; the tokens before it make up the text before the run, and the next token is
  the word that \<open>u\<close> starts.
  Consequently \<^verbatim>\<open>toCamelCase("XMLHttpRequest")\<close> is \<^verbatim>\<open>"xmlHttpRequest"\<close> and
  \<^verbatim>\<open>toDotCase("XMLHttpRequest")\<close> is \<^verbatim>\<open>"xml.http.request"\<close>.
\<close>

theorem acronym_boundary:
  "(list_all is_alnum (pre @ U @ u # l # t) \<and> (pre \<noteq> [] \<longrightarrow> \<not> is_upper (last pre)) \<and>
    U \<noteq> [] \<and> list_all is_upper U \<and> is_upper u \<and> is_lower l \<longrightarrow>
      trim (pre @ U @ u # l # t) = pre @ U @ u # l # t \<and>
      (\<exists>ts1 ts2. tokenize (pre @ U @ u # l # t)
                    = ts1 @ U # (u # takeWhile is_lower (l # t)) # ts2 \<and>
                  concat ts1 = pre \<and> concat ts2 = dropWhile is_lower (l # t))) \<and>
   tokenize (js ''XMLHttpRequest'') = [js ''XML'', js ''Http'', js ''Request''] \<and>
   toCamelCase V (JString (js ''XMLHttpRequest'')) = Inr (js ''xmlHttpRequest'') \<and>
   toDotCase V (JString (js ''XMLHttpRequest'')) = Inr (js ''xml.http.request'')"
proof -
  have tr: "trim (pre @ U @ u # l # t) = pre @ U @ u # l # t"
    if "list_all is_alnum (pre @ U @ u # l # t)"
    using that by (rule trim_alnum)
  have "\<exists>ts1 ts2. tokenize (pre @ U @ u # l # t)
                    = ts1 @ U # (u # takeWhile is_lower (l # t)) # ts2 \<and>
                  concat ts1 = pre \<and> concat ts2 = dropWhile is_lower (l # t)"
    if h: "list_all is_alnum (pre @ U @ u # l # t) \<and> (pre \<noteq> [] \<longrightarrow> \<not> is_upper (last pre)) \<and>
           U \<noteq> [] \<and> list_all is_upper U \<and> is_upper u \<and> is_lower l"
  proof (rule acronym_split)
    show "list_all is_alnum (pre @ U @ u # l # t)" using h by blast
    show "pre = [] \<or> \<not> is_upper (last pre)" using h by blast
    show "U \<noteq> []" using h by blast
    show "list_all is_upper U" using h by blast
    show "is_upper u" using h by blast
    show "is_lower l" using h by blast
  qed
  with tr ex_xml_tokens ex_xml_camel ex_xml_dot show ?thesis by blast
qed

theorem acronym_boundary_witness:
  "list_all is_alnum (js ''my'' @ js ''XML'' @ 0x48 # 0x74 # js ''tp'') \<and>
   js ''my'' \<noteq> [] \<and> \<not> is_upper (last (js ''my'')) \<and>
   js ''XML'' \<noteq> [] \<and> list_all is_upper (js ''XML'') \<and> is_upper 0x48 \<and> is_lower 0x74 \<and>
   (\<exists>ts1 ts2. tokenize (js ''my'' @ js ''XML'' @ 0x48 # 0x74 # js ''tp'')
                 = ts1 @ js ''XML'' # (0x48 # takeWhile is_lower (0x74 # js ''tp'')) # ts2 \<and>
               concat ts1 = js ''my'' \<and> concat ts2 = dropWhile is_lower (0x74 # js ''tp''))"
proof -
  have h: "list_all is_alnum (js ''my'' @ js ''XML'' @ 0x48 # 0x74 # js ''tp'') \<and>
           js ''my'' \<noteq> [] \<and> \<not> is_upper (last (js ''my'')) \<and>
           js ''XML'' \<noteq> [] \<and> list_all is_upper (js ''XML'') \<and> is_upper 0x48 \<and> is_lower 0x74"
    by code_simp
  from acronym_boundary [of "js ''my''" "js ''XML''" "0x48" "0x74" "js ''tp''" identity_tables] h
  show ?thesis by blast
qed

subsection \<open>C4: the LowerCamel renderer\<close>

text \<open>
  C4: on a sequence of tokens of letters and digits the renderer of \<^verbatim>\<open>toCamelCase\<close>
  is \<open>lower_camel\<close>: the first token lowercased, every later token with its first
  character uppercased and the others lowercased unless it is all digits, when it is
  kept as it is, and nothing between the tokens. Every token the converter computes is
  of that kind, so its result on a string is \<open>lower_camel\<close> of the tokens. In
  particular \<^verbatim>\<open>toCamelCase("item 42 count")\<close> is \<^verbatim>\<open>"item42Count"\<close>.
\<close>

theorem lower_camel_renderer:
  "((\<forall>t\<in>set ts. list_all is_alnum t) \<longrightarrow> render_camel U ts = lower_camel ts) \<and>
   toCamelCase U (JString s) = Inr (if trim s = [] then [] else lower_camel (tokenize (trim s))) \<and>
   toCamelCase U (JString (js ''item 42 count'')) = Inr (js ''item42Count'')"
proof -
  have "render_camel U ts = lower_camel ts" if "\<forall>t\<in>set ts. list_all is_alnum t"
    using that by (intro render_camel_ascii) (simp add: alnum_all_ascii)
  with toCamelCase_string ex_item_42_count show ?thesis by blast
qed

theorem lower_camel_renderer_witness:
  "list_all (list_all is_alnum) [js ''item'', js ''42'', js ''COUNT''] \<and>
   render_camel identity_tables [js ''item'', js ''42'', js ''COUNT''] = js ''item42Count''"
proof -
  let ?ts = "[js ''item'', js ''42'', js ''COUNT'']"
  have h0: "list_all (list_all is_alnum) ?ts" by code_simp
  then have h: "\<forall>t\<in>set ?ts. list_all is_alnum t" by (auto simp add: list_all_iff)
  have v: "lower_camel ?ts = js ''item42Count''" by code_simp
  note lower_camel_renderer [where ts = ?ts and U = identity_tables, THEN conjunct1]
  from this h have "render_camel identity_tables ?ts = lower_camel ?ts" by (rule mp)
  with v h0 show ?thesis by simp
qed

subsection \<open>C5: the DotCase renderer\<close>

text \<open>
  C5: on a sequence of tokens of letters and digits the renderer of \<^verbatim>\<open>toDotCase\<close> is
  \<open>dot_case\<close>: every token lowercased in full and a single dot between neighbours.
  Every token the converter computes is of that kind, so its result on a string is
  \<open>dot_case\<close> of the tokens. In particular \<^verbatim>\<open>toDotCase("SCREEN_NAME")\<close> is
  \<^verbatim>\<open>"screen.name"\<close> and \<^verbatim>\<open>toCamelCase("SCREEN_NAME")\<close> is \<^verbatim>\<open>"screenName"\<close>.
\<close>

theorem dot_case_renderer:
  "((\<forall>t\<in>set ts. list_all is_alnum t) \<longrightarrow> render_dot U ts = dot_case ts) \<and>
   toDotCase U (JString s) = Inr (if trim s = [] then [] else dot_case (tokenize (trim s))) \<and>
   toDotCase U (JString (js ''SCREEN_NAME'')) = Inr (js ''screen.name'') \<and>
   toCamelCase U (JString (js ''SCREEN_NAME'')) = Inr (js ''screenName'')"
proof -
  have "render_dot U ts = dot_case ts" if "\<forall>t\<in>set ts. list_all is_alnum t"
    using that by (intro render_dot_ascii) (simp add: alnum_all_ascii)
  with toDotCase_string ex_screen_name_dot ex_screen_name_camel show ?thesis by blast
qed

theorem dot_case_renderer_witness:
  "list_all (list_all is_alnum) [js ''SCREEN'', js ''NAME''] \<and>
   render_dot identity_tables [js ''SCREEN'', js ''NAME''] = js ''screen.name''"
proof -
  let ?ts = "[js ''SCREEN'', js ''NAME'']"
  have h0: "list_all (list_all is_alnum) ?ts" by code_simp
  then have h: "\<forall>t\<in>set ?ts. list_all is_alnum t" by (auto simp add: list_all_iff)
  have v: "dot_case ?ts = js ''screen.name''" by code_simp
  note dot_case_renderer [where ts = ?ts and U = identity_tables, THEN conjunct1]
  from this h have "render_dot identity_tables ?ts = dot_case ?ts" by (rule mp)
  with v h0 show ?thesis by simp
qed

subsection \<open>C6: kebab-case\<close>

text \<open>
  C6: for every string input, whatever code units it contains, \<^verbatim>\<open>toKebabCase\<close>
  works on the trimmed input, which is the input without a leading and a trailing run of
  white space and neither starts nor ends with white space; it replaces every maximal run
  of white space in it by one hyphen, keeps every other character in place, and
  lowercases every character: the result is \<open>lowercase_each\<close> of the collapsed
  string, in which every capital letter below U+0100 has become its small letter and
  every character from U+0100 on has the image the runtime's tables give it. On input
  below U+0100, and so on ASCII input, the result is fixed character by character. In
  particular \<^verbatim>\<open>toKebabCase("Hello   World")\<close> is \<^verbatim>\<open>"hello-world"\<close>, and the input
  made of U+00C9, a space and \<^verbatim>\<open>T\<close> gives U+00E9, a hyphen and \<^verbatim>\<open>t\<close>;
  with U+0100 in place of U+00C9 the result is the tables' image of U+0100, a hyphen and
  \<^verbatim>\<open>t\<close>.
\<close>

theorem kebab_case:
  "(\<exists>a b. s = a @ trim s @ b \<and> list_all is_ws a \<and> list_all is_ws b) \<and>
   (trim s \<noteq> [] \<longrightarrow> \<not> is_ws (hd (trim s)) \<and> \<not> is_ws (last (trim s))) \<and>
   toKebabCase U (JString s) = Inr (lowercase_each U [] (collapse_ws False (trim s))) \<and>
   (list_all (\<lambda>c. c < 0x100) s \<longrightarrow>
      toKebabCase U (JString s) = Inr (map lowercase_8bit (collapse_ws False (trim s)))) \<and>
   (list_all is_ascii s \<longrightarrow>
      toKebabCase U (JString s) = Inr (map lower_ascii (collapse_ws False (trim s)))) \<and>
   toKebabCase U (JString (js ''Hello   World'')) = Inr (js ''hello-world'') \<and>
   toKebabCase U (JString [0xC9, 0x20, 0x54]) = Inr [0xE9, 0x2D, 0x74] \<and>
   toKebabCase U (JString [0x100, 0x20, 0x54]) =
     Inr (unicodeLower U [] 0x100 [0x2D, 0x54] @ [0x2D, 0x74])"
proof -
  have each: "toKebabCase U (JString s) = Inr (lowercase_each U [] (collapse_ws False (trim s)))"
    by (simp only: toKebabCase_string toLowerCase_each)
  have small: "toKebabCase U (JString s) = Inr (map lowercase_8bit (collapse_ws False (trim s)))"
    if "list_all (\<lambda>c. c < 0x100) s"
  proof -
    from that trim_subset [of s] have "list_all (\<lambda>c. c < 0x100) (trim s)"
      by (auto simp add: list_all_iff)
    then have "list_all (\<lambda>c. c < 0x100) (collapse_ws False (trim s))"
      by (rule collapse_ws_8bit)
    then show ?thesis by (simp only: each lowercase_each_8bit)
  qed
  have ascii: "toKebabCase U (JString s) = Inr (map lower_ascii (collapse_ws False (trim s)))"
    if "list_all is_ascii s"
  proof -
    from that trim_subset [of s] have "list_all is_ascii (trim s)"
      by (auto simp add: list_all_iff)
    then have "list_all is_ascii (collapse_ws False (trim s))" by (rule collapse_ws_ascii)
    then show ?thesis by (simp only: each lowercase_each_ascii)
  qed
  from each small ascii trim_decomp [of s] trim_ends [of s] ex_hello_world [of U]
    ex_e_acute_t [of U] ex_a_macron_t [of U]
  show ?thesis by blast
qed

theorem kebab_case_witness:
  "trim ([0x20, 0xC9, 0x63, 0x6F, 0x4C, 0x45, 0x09, 0x20, 0xD7, 0xDE, 0x20] :: jstring) \<noteq> [] \<and>
   list_all (\<lambda>c. c < 0x100)
     ([0x20, 0xC9, 0x63, 0x6F, 0x4C, 0x45, 0x09, 0x20, 0xD7, 0xDE, 0x20] :: jstring) \<and>
   list_all is_ascii (js '' Hello   World '') \<and>
   \<not> is_ws (hd (trim [0x20, 0xC9, 0x63, 0x6F, 0x4C, 0x45, 0x09, 0x20, 0xD7, 0xDE, 0x20])) \<and>
   toKebabCase identity_tables
       (JString [0x20, 0xC9, 0x63, 0x6F, 0x4C, 0x45, 0x09, 0x20, 0xD7, 0xDE, 0x20]) =
     Inr [0xE9, 0x63, 0x6F, 0x6C, 0x65, 0x2D, 0xD7, 0xFE] \<and>
   toKebabCase identity_tables (JString (js '' Hello   World '')) =
     Inr (map lower_ascii (collapse_ws False (trim (js '' Hello   World ''))))"
proof -
  let ?s = "[0x20, 0xC9, 0x63, 0x6F, 0x4C, 0x45, 0x09, 0x20, 0xD7, 0xDE, 0x20] :: jstring"
  have h1: "trim ?s \<noteq> []" by code_simp
  have h2: "list_all (\<lambda>c. c < 0x100) ?s" by code_simp
  have h3: "list_all is_ascii (js '' Hello   World '')" by code_simp
  have v: "map lowercase_8bit (collapse_ws False (trim ?s)) =
           [0xE9, 0x63, 0x6F, 0x6C, 0x65, 0x2D, 0xD7, 0xFE]"
    by code_simp
  note k = kebab_case [of ?s identity_tables]
  from k h1 have a: "\<not> is_ws (hd (trim ?s))" by blast
  from k h2 have "toKebabCase identity_tables (JString ?s) =
      Inr (map lowercase_8bit (collapse_ws False (trim ?s)))" by blast
  then have b: "toKebabCase identity_tables (JString ?s) =
      Inr [0xE9, 0x63, 0x6F, 0x6C, 0x65, 0x2D, 0xD7, 0xFE]"
    by (simp only: v)
  from kebab_case [of "js '' Hello   World ''" identity_tables] h3
  have d: "toKebabCase identity_tables (JString (js '' Hello   World '')) =
      Inr (map lower_ascii (collapse_ws False (trim (js '' Hello   World ''))))" by blast
  from h1 h2 h3 a b d show ?thesis by blast
qed

subsection \<open>C7: empty and blank input\<close>

text \<open>
  C7: for the empty string and for every string of white space only,
  \<^verbatim>\<open>toCamelCase\<close>, \<^verbatim>\<open>toDotCase\<close> and \<^verbatim>\<open>toKebabCase\<close> each return the empty
  string, not an error.
\<close>

theorem blank_input:
  assumes "list_all is_ws s"
  shows "toCamelCase U (JString s) = Inr [] \<and>
         toDotCase U (JString s) = Inr [] \<and>
         toKebabCase U (JString s) = Inr []"
proof -
  from assms have "trim s = []" by (rule trim_all_ws)
  then show ?thesis
    by (simp add: toKebabCase_string toLowerCase_each del: toKebabCase.simps)
qed

theorem blank_input_witness:
  "list_all is_ws (js ''   '') \<and> list_all is_ws [] \<and>
   toCamelCase identity_tables (JString (js ''   '')) = Inr [] \<and>
   toDotCase identity_tables (JString (js ''   '')) = Inr [] \<and>
   toKebabCase identity_tables (JString (js ''   '')) = Inr [] \<and>
   toCamelCase identity_tables (JString []) = Inr [] \<and>
   toDotCase identity_tables (JString []) = Inr [] \<and>
   toKebabCase identity_tables (JString []) = Inr []"
proof -
  have h: "list_all is_ws (js ''   '')" by code_simp
  have e: "list_all is_ws []" by simp
  from blank_input [OF h, of identity_tables] blank_input [OF e, of identity_tables] h e
  show ?thesis by blast
qed

subsection \<open>C8: separator runs\<close>

text \<open>
  C8: splitting on separator runs and dropping the empty pieces leaves no empty token,
  wherever the runs are and however long: the tokens are the maximal runs of letters and
  digits, and together they are the input without its separators. In particular
  \<^verbatim>\<open>toCamelCase("  multiple---separators_here ")\<close> is
  \<^verbatim>\<open>"multipleSeparatorsHere"\<close>, in \<^verbatim>\<open>refined_prompt.js\<close> and in \<^verbatim>\<open>basic_prompt.js\<close>.
\<close>

theorem separator_runs:
  "[] \<notin> set (filter Boolean (regex_split separatorRe s)) \<and>
   filter Boolean (regex_split separatorRe s) = sep_tokens [] s \<and>
   concat (filter Boolean (regex_split separatorRe s)) = filter is_alnum s \<and>
   (regex_test separatorRe s \<longrightarrow> [] \<notin> set (tokenize s)) \<and>
   toCamelCase U (JString (js ''  multiple---separators_here '')) =
     Inr (js ''multipleSeparatorsHere'') \<and>
   toCamelCase_basic U (JString (js ''  multiple---separators_here '')) =
     Inr (js ''multipleSeparatorsHere'')"
proof -
  have eq: "filter Boolean (regex_split separatorRe s) = sep_tokens [] s"
    by (rule regex_split_separatorRe)
  have ne: "[] \<notin> set (filter Boolean (regex_split separatorRe s))"
    unfolding eq by (rule sep_tokens_nonempty)
  have cc: "concat (filter Boolean (regex_split separatorRe s)) = filter is_alnum s"
    unfolding eq by (simp add: sep_tokens_concat)
  have "[] \<notin> set (tokenize s)" if "regex_test separatorRe s"
    using that ne by (simp add: tokenize_def)
  with eq ne cc ex_separators_refined [of U] ex_separators_basic [of U] show ?thesis by blast
qed

theorem separator_runs_witness:
  "regex_test separatorRe (js ''--a__b--'') \<and> [] \<notin> set (tokenize (js ''--a__b--'')) \<and>
   concat (filter Boolean (regex_split separatorRe (js ''--a__b--''))) =
     filter is_alnum (js ''--a__b--'')"
proof -
  have h: "regex_test separatorRe (js ''--a__b--'')" by code_simp
  from separator_runs [of "js ''--a__b--''" identity_tables] h show ?thesis by blast
qed

subsection \<open>C9: applying toCamelCase twice\<close>

text \<open>
  C9: \<^verbatim>\<open>toCamelCase("first name")\<close> is \<^verbatim>\<open>"firstName"\<close>, and applying
  \<^verbatim>\<open>toCamelCase\<close> to that result gives the same result again.
\<close>

theorem camel_twice_first_name:
  "toCamelCase U (JString (js ''first name'')) = Inr (js ''firstName'') \<and>
   (case toCamelCase U (JString (js ''first name'')) of
      Inl e \<Rightarrow> Inl e
    | Inr r \<Rightarrow> toCamelCase U (JString r)) = toCamelCase U (JString (js ''first name''))"
  by (simp only: ex_first_name ex_firstName sum.case simp_thms)

theorem camel_twice_first_name_witness:
  "(case toCamelCase identity_tables (JString (js ''first name'')) of
      Inl e \<Rightarrow> Inl e
    | Inr r \<Rightarrow> toCamelCase identity_tables (JString r)) = Inr (js ''firstName'')"
proof -
  note t = camel_twice_first_name [of identity_tables]
  show ?thesis by (rule trans [OF t [THEN conjunct2] t [THEN conjunct1]])
qed

subsection \<open>C10: totality and the alphabet of the results\<close>

text \<open>
  C10: for every string input, whatever code units it contains, \<^verbatim>\<open>toCamelCase\<close> and
  \<^verbatim>\<open>toDotCase\<close> return a string and no error; every character of the result of
  \<^verbatim>\<open>toCamelCase\<close> is an ASCII letter or digit, and every character of the result of
  \<^verbatim>\<open>toDotCase\<close> is an ASCII letter, a digit or a dot.
\<close>

theorem converters_total:
  "(\<exists>r. toCamelCase U (JString s) = Inr r \<and> list_all is_alnum r) \<and>
   (\<exists>r. toDotCase U (JString s) = Inr r \<and> list_all (\<lambda>c. is_alnum c \<or> c = 0x2E) r)"
proof -
  have tok: "\<forall>t\<in>set (tokenize (trim s)). list_all is_alnum t"
    by (simp add: tokenize_alnum)
  have "list_all is_alnum (if trim s = [] then [] else lower_camel (tokenize (trim s)))"
    using lower_camel_alnum [OF tok] by simp
  moreover have "list_all (\<lambda>c. is_alnum c \<or> c = 0x2E)
                   (if trim s = [] then [] else dot_case (tokenize (trim s)))"
    using dot_case_chars [OF tok] by simp
  ultimately show ?thesis
    using toCamelCase_string [of U s] toDotCase_string [of U s] by blast
qed

theorem converters_total_witness:
  "(\<exists>r. toCamelCase identity_tables (JString [0x61, 0xE9, 0x3042, 0x42, 0x63]) = Inr r \<and>
        list_all is_alnum r) \<and>
   (\<exists>r. toDotCase identity_tables (JString [0x61, 0xE9, 0x3042, 0x42, 0x63]) = Inr r \<and>
        list_all (\<lambda>c. is_alnum c \<or> c = 0x2E) r)"
  by (rule converters_total)

end
